theory Spec2Isabelle
  imports Main "HOL-Library.Sublist"
begin

section \<open>Text and the JavaScript string primitives the generator uses\<close>

text \<open>
  The generator (\<^verbatim>\<open>dataClass\<close>) exists in four revisions:
  \<^item> \<^verbatim>\<open>src/commands/data.command.ts\<close>: one class per run, directives read from the
    comment that trails a field (suffix \<open>_v1\<close> below);
  \<^item> \<^verbatim>\<open>unnamed/part_000\<close>: every class of the text, fields found line by line,
    directives read from the comment lines above a field (suffix \<open>_v2\<close>);
  \<^item> \<^verbatim>\<open>unnamed/part_001\<close>, first file: every class of the text, fields and directives
    as in the first revision (suffix \<open>_v3\<close>);
  \<^item> \<^verbatim>\<open>unnamed/part_001\<close>, second file: one class per run, nullability re-read from
    the constructor, \<^verbatim>\<open>copyWith\<close> and equality (suffix \<open>_v4\<close>).
  A definition that several revisions share word for word carries no suffix.

  Text is a list of code units. The model covers code units below 256; of these the
  scanners tell apart the ASCII letters, digits, punctuation and the white space
  characters of ECMAScript (tab, line feed, vertical tab, form feed, carriage return,
  space and U+00A0).
\<close>

definition lowers :: string where
  "lowers = ''abcdefghijklmnopqrstuvwxyz''"

definition uppers :: string where
  "uppers = ''ABCDEFGHIJKLMNOPQRSTUVWXYZ''"

definition digits :: string where
  "digits = ''0123456789''"

definition is_lower :: "char \<Rightarrow> bool" where
  \<comment> \<open>the class \<^verbatim>\<open>[a-z]\<close>\<close>
  "is_lower c \<longleftrightarrow> c \<in> set lowers"

definition is_upper :: "char \<Rightarrow> bool" where
  \<comment> \<open>the class \<^verbatim>\<open>[A-Z]\<close>\<close>
  "is_upper c \<longleftrightarrow> c \<in> set uppers"

definition is_digit :: "char \<Rightarrow> bool" where
  "is_digit c \<longleftrightarrow> c \<in> set digits"

definition is_word :: "char \<Rightarrow> bool" where
  \<comment> \<open>the class \<^verbatim>\<open>\w\<close>, that is \<^verbatim>\<open>[A-Za-z0-9_]\<close>\<close>
  "is_word c \<longleftrightarrow> is_lower c \<or> is_upper c \<or> is_digit c \<or> c = CHR ''_''"

definition is_line_terminator :: "char \<Rightarrow> bool" where
  \<comment> \<open>what \<^verbatim>\<open>.\<close> refuses: line feed and carriage return\<close>
  "is_line_terminator c \<longleftrightarrow> c = CHR 0x0A \<or> c = CHR 0x0D"

definition is_space :: "char \<Rightarrow> bool" where
  \<comment> \<open>the class \<^verbatim>\<open>\s\<close>, also what \<^verbatim>\<open>trim\<close> removes\<close>
  "is_space c \<longleftrightarrow> c \<in> set [CHR 0x09, CHR 0x0A, CHR 0x0B, CHR 0x0C, CHR 0x0D, CHR '' '', CHR 0xA0]"

definition toUpperCase_char :: "char \<Rightarrow> char" where
  \<comment> \<open>\<^verbatim>\<open>toUpperCase\<close> on one code unit. JavaScript also maps letters outside ASCII
      (and U+00DF to two letters); the generator applies the function to characters of
      \<^verbatim>\<open>\w+\<close> names only, where none of these occurs, so only the ASCII letters are
      mapped here\<close>
  "toUpperCase_char c = (case map_of (zip lowers uppers) c of Some u \<Rightarrow> u | None \<Rightarrow> c)"

definition toLowerCase_char :: "char \<Rightarrow> char" where
  "toLowerCase_char c = (case map_of (zip uppers lowers) c of Some l \<Rightarrow> l | None \<Rightarrow> c)"

definition toUpperCase :: "string \<Rightarrow> string" where
  "toUpperCase s = map toUpperCase_char s"

definition toLowerCase :: "string \<Rightarrow> string" where
  "toLowerCase s = map toLowerCase_char s"

definition trim :: "string \<Rightarrow> string" where
  "trim s = rev (dropWhile is_space (rev (dropWhile is_space s)))"

definition startsWith :: "string \<Rightarrow> string \<Rightarrow> bool" where
  "startsWith s p = prefix p s"

definition endsWith :: "string \<Rightarrow> string \<Rightarrow> bool" where
  "endsWith s p = suffix p s"

fun find_sub :: "string \<Rightarrow> string \<Rightarrow> (string \<times> string) option" where
  \<comment> \<open>the text before and after the first occurrence of \<open>p\<close>\<close>
  "find_sub p [] = (if p = [] then Some ([], []) else None)"
| "find_sub p (c # cs) =
     (if prefix p (c # cs) then Some ([], drop (length p) (c # cs))
      else map_option (\<lambda>(b, a). (c # b, a)) (find_sub p cs))"

definition includes_str :: "string \<Rightarrow> string \<Rightarrow> bool" where
  "includes_str s p = (find_sub p s \<noteq> None)"

fun get_substitution :: "string \<Rightarrow> string \<Rightarrow> string \<Rightarrow> string \<Rightarrow> string" where
  \<comment> \<open>the replacement text of \<^verbatim>\<open>String.prototype.replace\<close> for a pattern without
      capture groups: \<^verbatim>\<open>$$\<close>, \<^verbatim>\<open>$&\<close>, \<^verbatim>\<open>$`\<close> and \<^verbatim>\<open>$'\<close> are expanded,
      every other character stands for itself\<close>
  "get_substitution m b a (c # d # cs) =
     (if c = CHR ''$'' \<and> d = CHR ''$'' then CHR ''$'' # get_substitution m b a cs
      else if c = CHR ''$'' \<and> d = CHR ''&'' then m @ get_substitution m b a cs
      else if c = CHR ''$'' \<and> d = CHR 0x60 then b @ get_substitution m b a cs
      else if c = CHR ''$'' \<and> d = CHR 0x27 then a @ get_substitution m b a cs
      else c # get_substitution m b a (d # cs))"
| "get_substitution m b a cs = cs"

definition replace_str :: "string \<Rightarrow> string \<Rightarrow> string \<Rightarrow> string" where
  \<comment> \<open>\<^verbatim>\<open>s.replace(p, r)\<close> with a string pattern: the first occurrence only\<close>
  "replace_str s p r =
     (case find_sub p s of
        None \<Rightarrow> s
      | Some (b, a) \<Rightarrow> b @ get_substitution p b a r @ a)"

fun split_lines :: "string \<Rightarrow> string list" where
  \<comment> \<open>\<^verbatim>\<open>s.split("\n")\<close>\<close>
  "split_lines [] = [[]]"
| "split_lines (c # cs) =
     (if c = CHR 0x0A then [] # split_lines cs
      else (case split_lines cs of [] \<Rightarrow> [[c]] | l # ls \<Rightarrow> (c # l) # ls))"

fun join :: "string \<Rightarrow> string list \<Rightarrow> string" where
  \<comment> \<open>\<^verbatim>\<open>xs.join(sep)\<close>\<close>
  "join sep [] = []"
| "join sep [x] = x"
| "join sep (x # y # ys) = x @ sep @ join sep (y # ys)"

section \<open>Case Converter\<close>

datatype naming_style = CamelCase | SnakeCase | PascalCase | KebabCase | Original

fun camelCase :: "string \<Rightarrow> string" where
  \<comment> \<open>\<^verbatim>\<open>str.replace(/_./g, (s) => s.charAt(1).toUpperCase())\<close>\<close>
  "camelCase (c # d # cs) =
     (if c = CHR ''_'' \<and> \<not> is_line_terminator d then toUpperCase_char d # camelCase cs
      else c # camelCase (d # cs))"
| "camelCase cs = cs"

fun mark_boundaries :: "char \<Rightarrow> string \<Rightarrow> string" where
  \<comment> \<open>\<^verbatim>\<open>str.replace(/([a-z])([A-Z])/g, "$1" + sep + "$2")\<close>\<close>
  "mark_boundaries sep (c # d # cs) =
     (if is_lower c \<and> is_upper d then c # sep # d # mark_boundaries sep cs
      else c # mark_boundaries sep (d # cs))"
| "mark_boundaries sep cs = cs"

definition snake_case :: "string \<Rightarrow> string" where
  "snake_case str = toLowerCase (mark_boundaries (CHR ''_'') str)"

definition kebab_case :: "string \<Rightarrow> string" where
  "kebab_case str = toLowerCase (mark_boundaries (CHR ''-'') str)"

definition pascal_callback :: "string \<Rightarrow> string" where
  \<comment> \<open>\<^verbatim>\<open>(s) => s.replace("_", "").toUpperCase()\<close>\<close>
  "pascal_callback s = toUpperCase (replace_str s ''_'' '''')"

fun pascal_rest :: "string \<Rightarrow> string" where
  \<comment> \<open>the matches of \<^verbatim>\<open>_\w\<close> past the start of the string\<close>
  "pascal_rest (c # d # cs) =
     (if c = CHR ''_'' \<and> is_word d then pascal_callback [c, d] @ pascal_rest cs
      else c # pascal_rest (d # cs))"
| "pascal_rest cs = cs"

fun pascalCase :: "string \<Rightarrow> string" where
  \<comment> \<open>\<^verbatim>\<open>str.replace(/(^\w|_\w)/g, callback)\<close>: at the start the first alternative
      takes one word character (an underscore too)\<close>
  "pascalCase [] = []"
| "pascalCase (c # cs) =
     (if is_word c then pascal_callback [c] @ pascal_rest cs else pascal_rest (c # cs))"

fun convertCase :: "naming_style \<Rightarrow> string \<Rightarrow> string" where
  "convertCase CamelCase str = camelCase str"
| "convertCase SnakeCase str = snake_case str"
| "convertCase PascalCase str = pascalCase str"
| "convertCase KebabCase str = kebab_case str"
| "convertCase Original str = str"

subsection \<open>Canonical names of a style\<close>

text \<open>
  The source has no notion of a canonical name; the predicate below states the one that
  the property of the converters is about.
\<close>

definition is_alnum :: "char \<Rightarrow> bool" where
  "is_alnum c \<longleftrightarrow> is_lower c \<or> is_upper c \<or> is_digit c"

fun canonical :: "naming_style \<Rightarrow> string \<Rightarrow> bool" where
  \<comment> \<open>the names a style writes: \<^verbatim>\<open>userId\<close>, \<^verbatim>\<open>user_id\<close>, \<^verbatim>\<open>UserId\<close>,
      \<^verbatim>\<open>user-id\<close>; any name is in the style \<^verbatim>\<open>original\<close>\<close>
  "canonical CamelCase s = (case s of [] \<Rightarrow> False | c # cs \<Rightarrow> is_lower c \<and> list_all is_alnum cs)"
| "canonical SnakeCase s =
     (s \<noteq> [] \<and> list_all (\<lambda>c. is_lower c \<or> is_digit c \<or> c = CHR ''_'') s)"
| "canonical PascalCase s = (case s of [] \<Rightarrow> False | c # cs \<Rightarrow> is_upper c \<and> list_all is_alnum cs)"
| "canonical KebabCase s =
     (s \<noteq> [] \<and> list_all (\<lambda>c. is_lower c \<or> is_digit c \<or> c = CHR ''-'') s)"
| "canonical Original s = True"

section \<open>The regular expressions of the generator\<close>

text \<open>
  Each pattern is written as the scanner that the backtracking matcher amounts to: a
  function that matches at the start of its argument, and a search that tries every
  start position from the left. A greedy quantifier that may have to give characters
  back is written as a recursion that first tries to go on and falls back otherwise.
\<close>

abbreviation (input) NL :: string where
  "NL \<equiv> [CHR 0x0A]"

abbreviation (input) APOS :: string where
  "APOS \<equiv> [CHR 0x27]"

definition class_name_at :: "string \<Rightarrow> string option" where
  \<comment> \<open>\<^verbatim>\<open>/class\s+(\w+)/\<close> at the start of \<open>s\<close>: the captured name\<close>
  "class_name_at s =
     (let r = drop 5 s; w = takeWhile is_word (dropWhile is_space r)
      in if prefix ''class'' s \<and> takeWhile is_space r \<noteq> [] \<and> w \<noteq> [] then Some w else None)"

fun classNameMatch :: "string \<Rightarrow> string option" where
  \<comment> \<open>\<^verbatim>\<open>classCode.match(/class\s+(\w+)/)\<close>: group 1 of the leftmost match\<close>
  "classNameMatch [] = None"
| "classNameMatch (c # cs) =
     (case class_name_at (c # cs) of Some w \<Rightarrow> Some w | None \<Rightarrow> classNameMatch cs)"

definition field_at :: "string \<Rightarrow> (string \<times> string \<times> string) option" where
  \<comment> \<open>\<^verbatim>\<open>/(\w+\??)\s+(\w+);/\<close> at the start of \<open>s\<close>: type, name and the text after the match\<close>
  "field_at s =
     (let w1 = takeWhile is_word s; r1 = dropWhile is_word s;
          q = (if prefix ''?'' r1 then ''?'' else []); r2 = drop (length q) r1;
          r3 = dropWhile is_space r2;
          w2 = takeWhile is_word r3; r4 = dropWhile is_word r3
      in if w1 \<noteq> [] \<and> takeWhile is_space r2 \<noteq> [] \<and> w2 \<noteq> [] \<and> prefix '';'' r4
         then Some (w1 @ q, w2, drop 1 r4) else None)"

lemma field_at_shorter: "field_at s = Some (t, n, rest) \<Longrightarrow> length rest < length s"
proof -
  assume a: "field_at s = Some (t, n, rest)"
  define r1 where "r1 = dropWhile is_word s"
  define r2 where "r2 = drop (length (if prefix ''?'' r1 then ''?'' else [])) r1"
  define r4 where "r4 = dropWhile is_word (dropWhile is_space r2)"
  from a have r: "rest = drop 1 r4" and p: "prefix '';'' r4"
    by (auto simp: field_at_def Let_def r1_def r2_def r4_def split: if_splits)
  from p have "r4 \<noteq> []" by auto
  with r have "length rest < length r4" by simp
  moreover have "length r4 \<le> length r2"
    unfolding r4_def by (meson length_dropWhile_le order_trans)
  moreover have "length r2 \<le> length r1"
    unfolding r2_def by simp
  moreover have "length r1 \<le> length s"
    unfolding r1_def by (rule length_dropWhile_le)
  ultimately show ?thesis by linarith
qed

function fieldMatches :: "string \<Rightarrow> (string \<times> string) list" where
  \<comment> \<open>\<^verbatim>\<open>[...text.matchAll(/(\w+\??)\s+(\w+);/g)]\<close>: the groups of every match, each
      search starting where the previous match ended\<close>
  "fieldMatches [] = []"
| "fieldMatches (c # cs) =
     (case field_at (c # cs) of
        Some (t, n, rest) \<Rightarrow> (t, n) # fieldMatches rest
      | None \<Rightarrow> fieldMatches cs)"
  by pat_completeness auto
termination
  by (relation "measure length") (auto dest: field_at_shorter)

definition final_field_at :: "string \<Rightarrow> (string \<times> string) option" where
  \<comment> \<open>\<^verbatim>\<open>trimmedLine.match(/^final\s+(\w+\??)\s+(\w+);/)\<close>\<close>
  "final_field_at s =
     (let r = drop 5 s
      in if prefix ''final'' s \<and> takeWhile is_space r \<noteq> []
         then map_option (\<lambda>(t, n, rest). (t, n)) (field_at (dropWhile is_space r))
         else None)"

definition dot_plus :: "string \<Rightarrow> string option" where
  \<comment> \<open>\<^verbatim>\<open>(.+)\<close>: the characters up to the next line terminator, at least one\<close>
  "dot_plus s = (let g = takeWhile (\<lambda>c. \<not> is_line_terminator c) s in if g = [] then None else Some g)"

fun spaces_dot_plus :: "string \<Rightarrow> string option" where
  \<comment> \<open>\<^verbatim>\<open>\s*(.+)\<close>\<close>
  "spaces_dot_plus [] = None"
| "spaces_dot_plus (c # cs) =
     (if is_space c
      then (case spaces_dot_plus cs of Some g \<Rightarrow> Some g | None \<Rightarrow> dot_plus (c # cs))
      else dot_plus (c # cs))"

definition comment_at :: "string \<Rightarrow> string \<Rightarrow> string option" where
  \<comment> \<open>\<^verbatim>\<open>new RegExp(`${name};\\s*//\\s*(.+)`)\<close> at the start of \<open>s\<close>; the name is a
      \<^verbatim>\<open>\w+\<close> capture, so it stands for itself in the pattern\<close>
  "comment_at nm s =
     (let r = dropWhile is_space (drop (length nm + 1) s)
      in if prefix (nm @ '';'') s \<and> prefix ''//'' r then spaces_dot_plus (drop 2 r) else None)"

fun commentMatch :: "string \<Rightarrow> string \<Rightarrow> string option" where
  \<comment> \<open>\<^verbatim>\<open>commentRegex.exec(classCode)\<close>: group 1 of the leftmost match\<close>
  "commentMatch nm [] = None"
| "commentMatch nm (c # cs) =
     (case comment_at nm (c # cs) of Some g \<Rightarrow> Some g | None \<Rightarrow> commentMatch nm cs)"

definition after_comma :: "string \<Rightarrow> (string \<times> string) option" where
  \<comment> \<open>\<^verbatim>\<open>,\s*(.*)\<close> with an empty first group before it\<close>
  "after_comma s =
     (if prefix '','' s
      then Some ([], takeWhile (\<lambda>c. \<not> is_line_terminator c) (dropWhile is_space (drop 1 s)))
      else None)"

fun dot_star_comma :: "string \<Rightarrow> (string \<times> string) option" where
  \<comment> \<open>\<^verbatim>\<open>(.*),\s*(.*)\<close>: the first group runs to the last comma of the line\<close>
  "dot_star_comma [] = None"
| "dot_star_comma (c # cs) =
     (if is_line_terminator c then after_comma (c # cs)
      else (case dot_star_comma cs of
              Some (g1, g2) \<Rightarrow> Some (c # g1, g2)
            | None \<Rightarrow> after_comma (c # cs)))"

fun parsing_tail :: "string \<Rightarrow> (string \<times> string) option" where
  \<comment> \<open>\<^verbatim>\<open>\s*(.*),\s*(.*)\<close>\<close>
  "parsing_tail [] = None"
| "parsing_tail (c # cs) =
     (if is_space c
      then (case parsing_tail cs of Some g \<Rightarrow> Some g | None \<Rightarrow> dot_star_comma (c # cs))
      else dot_star_comma (c # cs))"

fun parsingMatch :: "string \<Rightarrow> (string \<times> string) option" where
  \<comment> \<open>\<^verbatim>\<open>text.match(/Parsing:\s*(.*),\s*(.*)/)\<close>: groups 1 and 2 of the leftmost match\<close>
  "parsingMatch [] = None"
| "parsingMatch (c # cs) =
     (case (if prefix ''Parsing:'' (c # cs) then parsing_tail (drop 8 (c # cs)) else None) of
        Some g \<Rightarrow> Some g
      | None \<Rightarrow> parsingMatch cs)"

fun lazy_body :: "string \<Rightarrow> (string \<times> string) option" where
  \<comment> \<open>\<^verbatim>\<open>([\s\S]*?)}\<close>: the lazy group takes one more character only when no
      closing brace stands next; the text after the brace is returned with the group\<close>
  "lazy_body [] = None"
| "lazy_body (c # cs) =
     (if c = CHR ''}'' then Some ([], cs)
      else map_option (\<lambda>(b, rest). (c # b, rest)) (lazy_body cs))"

definition class_at :: "string \<Rightarrow> (string \<times> string \<times> string) option" where
  \<comment> \<open>\<^verbatim>\<open>/class\s+(\w+)\s*{([\s\S]*?)}/\<close> at the start of \<open>s\<close>: name, body and the text
      after the match\<close>
  "class_at s =
     (let r = drop 5 s; r1 = dropWhile is_space r;
          w = takeWhile is_word r1; r2 = dropWhile is_space (dropWhile is_word r1)
      in if prefix ''class'' s \<and> takeWhile is_space r \<noteq> [] \<and> w \<noteq> [] \<and> prefix ''{'' r2
         then map_option (\<lambda>(b, rest). (w, b, rest)) (lazy_body (drop 1 r2))
         else None)"

lemma lazy_body_shorter: "lazy_body s = Some (b, rest) \<Longrightarrow> length rest < length s"
  by (induction s arbitrary: b) (auto split: if_splits)

lemma class_at_shorter: "class_at s = Some (w, b, rest) \<Longrightarrow> length rest < length s"
proof -
  assume a: "class_at s = Some (w, b, rest)"
  define r2 where "r2 = dropWhile is_space (dropWhile is_word (dropWhile is_space (drop 5 s)))"
  from a have "lazy_body (drop 1 r2) = Some (b, rest)"
    by (auto simp: class_at_def Let_def r2_def split: if_splits)
  then have "length rest < length (drop 1 r2)"
    by (rule lazy_body_shorter)
  moreover have "length r2 \<le> length (drop 5 s)"
    unfolding r2_def by (meson length_dropWhile_le order_trans)
  ultimately show ?thesis by simp
qed

record class_match =
  m_index :: nat
  m_text :: string
  m_className :: string
  m_classBody :: string

function classMatches :: "nat \<Rightarrow> string \<Rightarrow> class_match list" where
  \<comment> \<open>the matches that the loop \<^verbatim>\<open>while ((classMatch = classRegex.exec(classCode)) !== null)\<close>
      goes through; \<open>i\<close> is the offset of the remaining text in \<^verbatim>\<open>classCode\<close>\<close>
  "classMatches i [] = []"
| "classMatches i (c # cs) =
     (case class_at (c # cs) of
        Some (w, b, rest) \<Rightarrow>
          (let n = length (c # cs) - length rest
           in \<lparr>m_index = i, m_text = take n (c # cs), m_className = w, m_classBody = b\<rparr>
              # classMatches (i + n) rest)
      | None \<Rightarrow> classMatches (Suc i) cs)"
  by pat_completeness auto
termination
  by (relation "measure (\<lambda>(i, s). length s)") (auto dest: class_at_shorter)

definition class_shape :: "class_match \<Rightarrow> bool" where
  \<comment> \<open>the matched text is \<^verbatim>\<open>class\<close>, white space, the name, optional white space, the
      opening brace, the body and one closing brace\<close>
  "class_shape m \<longleftrightarrow>
     (\<exists>ws ws'. m_text m = ''class'' @ ws @ m_className m @ ws' @ ''{'' @ m_classBody m @ ''}''
        \<and> ws \<noteq> [] \<and> list_all is_space ws \<and> list_all is_space ws'
        \<and> m_className m \<noteq> [] \<and> list_all is_word (m_className m))"

section \<open>Field Extractor and Metadata Interpreter\<close>

record customParsing =
  fromJson :: "string option"
  toJson :: "string option"

record plain_field =
  type :: string
  name :: string
  snakeName :: string
  nullable :: bool

record field = plain_field +
  isEnum :: bool
  isClass :: bool
  customParsing :: customParsing

definition dartBuiltInTypes :: "string list" where
  "dartBuiltInTypes =
     [''int'', ''double'', ''String'', ''bool'', ''num'', ''List'', ''Map'', ''Set'', ''dynamic'']"

definition no_parsing :: customParsing where
  \<comment> \<open>\<^verbatim>\<open>{}\<close>: neither expression set\<close>
  "no_parsing = \<lparr>fromJson = None, toJson = None\<rparr>"

fun truthy :: "string option \<Rightarrow> bool" where
  \<comment> \<open>\<^verbatim>\<open>if (customParsing.fromJson)\<close>: set, and not the empty string\<close>
  "truthy None = False"
| "truthy (Some e) = (e \<noteq> [])"

subsection \<open>Directives in the comment that trails a field (first and third revision)\<close>

fun directive_step :: "bool \<times> customParsing \<Rightarrow> string \<Rightarrow> bool \<times> customParsing" where
  \<comment> \<open>the body of \<^verbatim>\<open>for (const line of commentLines)\<close>\<close>
  "directive_step (e, cp) line =
     (if startsWith line ''Type: enum'' then (True, cp)
      else if startsWith line ''Parsing:''
      then (case parsingMatch line of
              Some (g1, g2) \<Rightarrow> (e, \<lparr>fromJson = Some (trim g1), toJson = Some (trim g2)\<rparr>)
            | None \<Rightarrow> (e, cp))
      else (e, cp))"

definition read_directives :: "string \<Rightarrow> string \<Rightarrow> bool \<times> customParsing" where
  \<comment> \<open>\<^verbatim>\<open>isEnum\<close> and \<^verbatim>\<open>customParsing\<close> after the comment has been read\<close>
  "read_directives nm classCode =
     (case commentMatch nm classCode of
        None \<Rightarrow> (False, no_parsing)
      | Some g \<Rightarrow> foldl directive_step (False, no_parsing) (map trim (split_lines g)))"

definition determineFieldType :: "string \<Rightarrow> string \<Rightarrow> string \<Rightarrow> bool \<times> bool \<times> customParsing" where
  \<comment> \<open>returns \<^verbatim>\<open>{ isEnum, isClass, customParsing }\<close>\<close>
  "determineFieldType ty nm classCode =
     (let cleanType = replace_str ty ''?'' '''';
          (e, cp) = read_directives nm classCode
      in if cleanType \<in> set dartBuiltInTypes then (False, False, cp)
         else (e, \<not> e, cp))"

definition field_of_match :: "naming_style \<Rightarrow> string \<Rightarrow> string \<times> string \<Rightarrow> field" where
  \<comment> \<open>the callback of \<^verbatim>\<open>fieldMatches.map\<close>\<close>
  "field_of_match style classCode m =
     (case m of (ty, nm) \<Rightarrow>
        (case determineFieldType ty nm classCode of (e, k, cp) \<Rightarrow>
           \<lparr>type = ty, name = nm, snakeName = convertCase style nm,
            nullable = endsWith ty ''?'', isEnum = e, isClass = k, customParsing = cp\<rparr>))"

definition fields_of :: "naming_style \<Rightarrow> string \<Rightarrow> field list" where
  "fields_of style classCode = map (field_of_match style classCode) (fieldMatches classCode)"

subsection \<open>Fields and directives found line by line (second revision)\<close>

definition strip_slashes :: "string \<Rightarrow> string" where
  \<comment> \<open>\<^verbatim>\<open>.replace(/^\/\//, "")\<close>\<close>
  "strip_slashes s = (if prefix ''//'' s then drop 2 s else s)"

fun commentBlock_above :: "string list \<Rightarrow> string" where
  \<comment> \<open>the loop \<^verbatim>\<open>while (j >= 0 && lines[j].trim().startsWith("//"))\<close>; the argument
      holds the lines above the field, the nearest first\<close>
  "commentBlock_above [] = []"
| "commentBlock_above (l # ls) =
     (if startsWith (trim l) ''//''
      then commentBlock_above ls @ trim (strip_slashes (trim l)) @ NL
      else [])"

definition field_of_line :: "naming_style \<Rightarrow> string list \<Rightarrow> string \<times> string \<Rightarrow> field" where
  \<comment> \<open>the body of \<^verbatim>\<open>if (fieldMatch)\<close>\<close>
  "field_of_line style prev m =
     (case m of (ty, nm) \<Rightarrow>
        (let commentBlock = commentBlock_above prev;
             e = includes_str commentBlock ''Type: enum'';
             k = (if e then False else replace_str ty ''?'' '''' \<notin> set dartBuiltInTypes);
             cp = (case parsingMatch commentBlock of
                     Some (g1, g2) \<Rightarrow> \<lparr>fromJson = Some (trim g1), toJson = Some (trim g2)\<rparr>
                   | None \<Rightarrow> no_parsing)
         in \<lparr>type = ty, name = nm, snakeName = convertCase style nm,
             nullable = endsWith ty ''?'', isEnum = e, isClass = k, customParsing = cp\<rparr>))"

fun scan_lines :: "naming_style \<Rightarrow> string list \<Rightarrow> string list \<Rightarrow> field list" where
  \<comment> \<open>the loop \<^verbatim>\<open>for (let i = 0; i < lines.length; i++)\<close>; \<open>prev\<close> holds the lines
      already passed, the nearest first\<close>
  "scan_lines style prev [] = []"
| "scan_lines style prev (l # ls) =
     (case final_field_at (trim l) of
        Some m \<Rightarrow> field_of_line style prev m # scan_lines style (l # prev) ls
      | None \<Rightarrow> scan_lines style (l # prev) ls)"

definition fields_of_lines :: "naming_style \<Rightarrow> string \<Rightarrow> field list" where
  "fields_of_lines style classBody = scan_lines style [] (split_lines classBody)"

section \<open>Code Synthesizer\<close>

text \<open>
  Every template literal of the source is written out piece by piece: \<open>NL\<close> is the line
  feed and \<open>APOS\<close> the apostrophe of the generated Dart text.
\<close>

definition field_declaration :: "'a plain_field_scheme \<Rightarrow> string" where
  "field_declaration f =
     ''final '' @ type f @ '' '' @ name f @ '';''"

definition generateFieldDeclarations :: "'a plain_field_scheme list \<Rightarrow> string" where
  "generateFieldDeclarations fs =
     join (NL @ ''  '') (map field_declaration fs)"

definition constructor_param :: "'a plain_field_scheme \<Rightarrow> string" where
  \<comment> \<open>\<^verbatim>\<open>`${nullable ? "" : "required "}this.${name},`\<close>\<close>
  "constructor_param f =
     (if nullable f then [] else ''required '') @ ''this.'' @ name f @ '',''"

definition generateConstructor :: "string \<Rightarrow> 'a plain_field_scheme list \<Rightarrow> string" where
  \<comment> \<open>first, third and fourth revision\<close>
  "generateConstructor dtoClassName fs =
     NL @ ''  const '' @ dtoClassName @ ''({'' @ NL @ ''    ''
       @ join (NL @ ''    '') (map constructor_param fs) @ NL @ ''  });'' @ NL @ ''  ''"

definition generateConstructor_v2 :: "string \<Rightarrow> 'a plain_field_scheme list \<Rightarrow> string" where
  "generateConstructor_v2 dtoClassName fs =
     ''const '' @ dtoClassName @ ''({'' @ NL @ ''    ''
       @ join (NL @ ''    '') (map constructor_param fs) @ NL @ ''  });''"

definition map_access :: "'a plain_field_scheme \<Rightarrow> string" where
  \<comment> \<open>\<^verbatim>\<open>map['${snakeName}']\<close>\<close>
  "map_access f =
     ''map['' @ APOS @ snakeName f @ APOS @ '']''"

definition fromMap_entry :: "field \<Rightarrow> string" where
  \<comment> \<open>the callback of \<^verbatim>\<open>fields.map\<close> in \<^verbatim>\<open>generateFactoryMethods\<close>, first and third revision\<close>
  "fromMap_entry f =
     (if truthy (fromJson (customParsing f))
      then name f @ '': '' @ replace_str (the (fromJson (customParsing f))) ''value'' (map_access f) @ '',''
      else if isEnum f
      then name f @ '': '' @ name f @ ''FromString('' @ map_access f @ ''),''
      else if isClass f
      then name f @ '': '' @ map_access f @ '' != null ? '' @ type f @ ''.fromMap(''
           @ map_access f @ '') : null,''
      else name f @ '': '' @ map_access f @ '','')"

definition fromMap_entry_v2 :: "field \<Rightarrow> string" where
  \<comment> \<open>second revision: the nested type is written without its \<^verbatim>\<open>?\<close>\<close>
  "fromMap_entry_v2 f =
     (if truthy (fromJson (customParsing f))
      then name f @ '': '' @ replace_str (the (fromJson (customParsing f))) ''value'' (map_access f) @ '',''
      else if isEnum f
      then name f @ '': '' @ name f @ ''FromString('' @ map_access f @ ''),''
      else if isClass f
      then (let nonNullableType = replace_str (type f) ''?'' ''''
            in name f @ '': '' @ map_access f @ '' != null ? '' @ nonNullableType @ ''.fromMap(''
               @ map_access f @ '') : null,'')
      else name f @ '': '' @ map_access f @ '','')"

definition toMap_entry :: "field \<Rightarrow> string" where
  \<comment> \<open>the callback of \<^verbatim>\<open>fields.map\<close> in \<^verbatim>\<open>generateToMapAndJson\<close>, first to third revision\<close>
  "toMap_entry f =
     (if truthy (toJson (customParsing f))
      then APOS @ snakeName f @ APOS @ '': '' @ replace_str (the (toJson (customParsing f))) ''value'' (name f) @ '',''
      else if isEnum f
      then APOS @ snakeName f @ APOS @ '': '' @ name f @ ''ToString('' @ name f @ ''),''
      else if isClass f
      then APOS @ snakeName f @ APOS @ '': '' @ name f @ ''?.toMap(),''
      else APOS @ snakeName f @ APOS @ '': '' @ name f @ '','')"

definition generateFactoryMethods_v1 :: "string \<Rightarrow> field list \<Rightarrow> string" where
  "generateFactoryMethods_v1 dtoClassName fs =
     ''factory '' @ dtoClassName @ ''.fromMap(Map<String, dynamic> map) => ''
       @ dtoClassName @ ''('' @ NL @ ''    '' @ join (NL @ ''    '') (map fromMap_entry fs)
       @ NL @ ''      );'' @ NL @ NL @ ''  factory '' @ dtoClassName
       @ ''.fromJson(String source) =>'' @ NL @ ''      '' @ dtoClassName
       @ ''.fromMap(json.decode(source));'' @ NL @ ''  ''"

definition generateFactoryMethods_v2 :: "string \<Rightarrow> field list \<Rightarrow> string" where
  "generateFactoryMethods_v2 dtoClassName fs =
     ''factory '' @ dtoClassName @ ''.fromMap(Map<String, dynamic> map) => ''
       @ dtoClassName @ ''('' @ NL @ ''    ''
       @ join (NL @ ''    '') (map fromMap_entry_v2 fs)
       @ NL @ ''  );'' @ NL @ NL @ ''  factory '' @ dtoClassName
       @ ''.fromJson(String source) =>'' @ NL @ ''      '' @ dtoClassName
       @ ''.fromMap(json.decode(source));''"

definition generateFactoryMethods_v3 :: "string \<Rightarrow> field list \<Rightarrow> string" where
  "generateFactoryMethods_v3 dtoClassName fs =
     NL @ ''  factory '' @ dtoClassName @ ''.fromMap(Map<String, dynamic> map) => ''
       @ dtoClassName @ ''('' @ NL @ ''    '' @ join (NL @ ''    '') (map fromMap_entry fs)
       @ NL @ ''  );'' @ NL @ NL @ ''  factory '' @ dtoClassName
       @ ''.fromJson(String source) =>'' @ NL @ ''      '' @ dtoClassName
       @ ''.fromMap(json.decode(source));'' @ NL @ ''  ''"

definition generateToMapAndJson_v1 :: "field list \<Rightarrow> string" where
  "generateToMapAndJson_v1 fs =
     ''Map<String, dynamic> toMap() => {'' @ NL @ ''    ''
       @ join (NL @ ''    '') (map toMap_entry fs)
       @ NL @ ''  };'' @ NL @ NL @ ''  String toJson() => json.encode(toMap());''"

definition generateToMapAndJson_v2 :: "field list \<Rightarrow> string" where
  "generateToMapAndJson_v2 fs =
     ''Map<String, dynamic> toMap() => {'' @ NL @ ''    ''
       @ join (NL @ ''    '') (map toMap_entry fs)
       @ NL @ ''  };'' @ NL @ NL @ ''  String toJson() => json.encode(toMap());''"

definition generateToMapAndJson_v3 :: "field list \<Rightarrow> string" where
  "generateToMapAndJson_v3 fs =
     NL @ ''  Map<String, dynamic> toMap() => {'' @ NL @ ''    ''
       @ join (NL @ ''    '') (map toMap_entry fs)
       @ NL @ ''  };'' @ NL @ NL @ ''  String toJson() => json.encode(toMap());'' @ NL @ ''  ''"

definition toString_entry :: "'a plain_field_scheme \<Rightarrow> string" where
  \<comment> \<open>\<^verbatim>\<open>`${name}: \$${name}`\<close>\<close>
  "toString_entry f =
     name f @ '': $'' @ name f"

definition generateToString_v1 :: "string \<Rightarrow> 'a plain_field_scheme list \<Rightarrow> string" where
  "generateToString_v1 dtoClassName fs =
     NL @ ''  @override'' @ NL @ ''  String toString() => '' @ APOS @ dtoClassName
       @ ''('' @ join '', '' (map toString_entry fs) @ '')'' @ APOS @ '';''"

definition generateToString_v2 :: "string \<Rightarrow> 'a plain_field_scheme list \<Rightarrow> string" where
  "generateToString_v2 dtoClassName fs =
     ''@override'' @ NL @ ''  String toString() => '' @ APOS @ dtoClassName @ ''(''
       @ join '', '' (map toString_entry fs) @ '')'' @ APOS @ '';''"

definition generateToString_v3 :: "string \<Rightarrow> 'a plain_field_scheme list \<Rightarrow> string" where
  "generateToString_v3 dtoClassName fs =
     NL @ ''  @override'' @ NL @ ''  String toString() => '' @ APOS @ dtoClassName
       @ ''('' @ join '', '' (map toString_entry fs) @ '')'' @ APOS @ '';'' @ NL @ ''  ''"

definition generateToString_v4 :: "string \<Rightarrow> 'a plain_field_scheme list \<Rightarrow> string" where
  "generateToString_v4 dtoClassName fs =
     ''@override'' @ NL @ ''  String toString() => '' @ APOS @ dtoClassName @ ''(''
       @ join '', '' (map toString_entry fs) @ '')'' @ APOS @ '';'' @ NL"

definition classTemplate_v1 :: "string \<Rightarrow> field list \<Rightarrow> string" where
  "classTemplate_v1 dtoClassName fs =
     NL @ ''import '' @ APOS @ ''dart:convert'' @ APOS @ '';'' @ NL @ ''import '' @ APOS @ ''package:meta/meta.dart'' @ APOS @ '';'' @ NL @ NL @ ''@immutable'' @ NL @ ''class ''
       @ dtoClassName @ '' {'' @ NL @ ''  '' @ generateFieldDeclarations fs @ NL @ ''  ''
       @ generateConstructor dtoClassName fs @ NL @ ''  ''
       @ generateFactoryMethods_v1 dtoClassName fs @ NL @ ''  '' @ generateToMapAndJson_v1 fs
       @ NL @ ''  '' @ generateToString_v1 dtoClassName fs @ NL @ ''}'' @ NL @ NL"

definition updatedClass_v2 :: "string \<Rightarrow> field list \<Rightarrow> string" where
  "updatedClass_v2 dtoClassName fs =
     ''class '' @ dtoClassName @ '' {'' @ NL @ ''  '' @ generateFieldDeclarations fs
       @ NL @ ''  '' @ NL @ ''  '' @ generateConstructor_v2 dtoClassName fs
       @ NL @ ''  '' @ NL @ ''  '' @ generateFactoryMethods_v2 dtoClassName fs
       @ NL @ ''  '' @ NL @ ''  '' @ generateToMapAndJson_v2 fs @ NL @ ''  '' @ NL @ ''  ''
       @ generateToString_v2 dtoClassName fs @ NL @ ''}''"

definition updatedClass_v3 :: "string \<Rightarrow> field list \<Rightarrow> string" where
  "updatedClass_v3 dtoClassName fs =
     NL @ ''class '' @ dtoClassName @ '' {'' @ NL @ ''  '' @ generateFieldDeclarations fs
       @ NL @ ''  '' @ generateConstructor dtoClassName fs @ NL @ ''  ''
       @ generateFactoryMethods_v3 dtoClassName fs @ NL @ ''  '' @ generateToMapAndJson_v3 fs
       @ NL @ ''  '' @ generateToString_v3 dtoClassName fs @ NL @ ''}'' @ NL"

subsection \<open>Fourth revision: casts, \<^verbatim>\<open>copyWith\<close> and equality\<close>

definition field_declaration_v4 :: "plain_field \<Rightarrow> string" where
  "field_declaration_v4 f =
     ''  final '' @ type f @ '' '' @ name f @ '';''"

definition generateFieldDeclarations_v4 :: "plain_field list \<Rightarrow> string" where
  "generateFieldDeclarations_v4 fs =
     join NL (map field_declaration_v4 fs)"

definition fromMap_entry_v4 :: "plain_field \<Rightarrow> string" where
  "fromMap_entry_v4 f =
     name f @ '': '' @ map_access f @ '' as '' @ replace_str (type f) ''?'' ''''
       @ (if nullable f then ''?'' else []) @ '',''"

definition generateFactoryMethods_v4 :: "string \<Rightarrow> plain_field list \<Rightarrow> string" where
  "generateFactoryMethods_v4 dtoClassName fs =
     NL @ ''  factory '' @ dtoClassName
       @ ''.fromMap(Map<String, dynamic> map,'' @ NL @ ''   ) => '' @ dtoClassName
       @ ''('' @ NL @ ''    '' @ join [] (map fromMap_entry_v4 fs)
       @ NL @ ''  );'' @ NL @ NL @ ''  factory '' @ dtoClassName
       @ ''.fromJson(String source) =>'' @ NL @ ''      '' @ dtoClassName
       @ ''.fromMap('' @ NL @ ''         json.decode(source) as Map<String, dynamic>,'' @ NL @ ''      );'' @ NL @ ''   ''"

definition copyWith_param :: "plain_field \<Rightarrow> string" where
  "copyWith_param f =
     (if endsWith (type f) ''?'' then type f else type f @ ''?'') @ '' '' @ name f @ '',''"

definition copyWith_argument :: "plain_field \<Rightarrow> string" where
  "copyWith_argument f =
     name f @ '': '' @ name f @ '' ?? this.'' @ name f @ '',''"

definition generateCopyWith :: "string \<Rightarrow> plain_field list \<Rightarrow> string" where
  "generateCopyWith dtoClassName fs =
     dtoClassName @ '' copyWith({'' @ NL @ ''    ''
       @ join (NL @ ''    '') (map copyWith_param fs) @ NL @ ''  }) => '' @ dtoClassName
       @ ''('' @ NL @ ''    '' @ join (NL @ ''    '') (map copyWith_argument fs)
       @ NL @ ''  );''"

definition toMap_entry_v4 :: "plain_field \<Rightarrow> string" where
  "toMap_entry_v4 f =
     ''  '' @ APOS @ snakeName f @ APOS @ '': '' @ name f @ '',''"

definition generateToMapAndJson_v4 :: "plain_field list \<Rightarrow> string" where
  "generateToMapAndJson_v4 fs =
     NL @ ''  Map<String, dynamic> toMap() => {'' @ NL @ ''    ''
       @ join (NL @ ''    '') (map toMap_entry_v4 fs)
       @ NL @ ''  };'' @ NL @ NL @ ''  String toJson() => json.encode(toMap(),);'' @ NL @ ''  ''"

definition generateEquality :: "bool \<Rightarrow> string \<Rightarrow> plain_field list \<Rightarrow> string" where
  "generateEquality hasEquatable dtoClassName fs =
     (if hasEquatable
      then NL @ ''  @override'' @ NL @ ''  List<Object?> get props => [''
         @ join '','' (map name fs) @ ''];'' @ NL @ ''  ''
      else NL @ ''  @override'' @ NL @ ''  bool operator ==(Object other) =>'' @ NL @ ''      identical(this, other) ||'' @ NL @ ''      other is ''
         @ dtoClassName @ '' &&'' @ NL @ ''      ''
         @ join (NL @ ''      '') (map (\<lambda>f. ''other.'' @ name f @ '' == '' @ name f @ '' &&'') fs)
         @ '' true;'' @ NL @ NL @ ''  @override'' @ NL @ ''  int get hashCode => ''
         @ join (NL @ ''      '') (map (\<lambda>f. name f @ ''.hashCode ^'') fs)
         @ '' 0;'' @ NL @ ''  '')"

definition classTemplate_v4 :: "bool \<Rightarrow> string \<Rightarrow> plain_field list \<Rightarrow> string" where
  "classTemplate_v4 hasEquatable dtoClassName fs =
     NL @ ''import '' @ APOS @ ''dart:convert'' @ APOS @ '';'' @ NL
       @ (if hasEquatable then ''import '' @ APOS @ ''package:equatable/equatable.dart'' @ APOS @ '';'' @ NL else [])
       @ ''import '' @ APOS @ ''package:meta/meta.dart'' @ APOS @ '';'' @ NL @ NL @ ''@immutable'' @ NL @ ''class ''
       @ dtoClassName @ '' '' @ (if hasEquatable then ''extends Equatable'' else [])
       @ '' {'' @ NL @ generateFieldDeclarations_v4 fs @ NL
       @ generateConstructor dtoClassName fs @ NL @ generateFactoryMethods_v4 dtoClassName fs
       @ NL @ generateCopyWith dtoClassName fs @ NL @ generateToMapAndJson_v4 fs @ NL
       @ generateToString_v4 dtoClassName fs @ NL
       @ generateEquality hasEquatable dtoClassName fs @ NL @ ''}'' @ NL"

subsection \<open>Fourth revision: nullability from the constructor\<close>

definition plain_field_of_match :: "naming_style \<Rightarrow> string \<times> string \<Rightarrow> plain_field" where
  "plain_field_of_match style m =
     (case m of (ty, nm) \<Rightarrow>
        \<lparr>type = ty, name = nm, snakeName = convertCase style nm, nullable = endsWith ty ''?''\<rparr>)"

definition constructorParams :: "string \<Rightarrow> string \<Rightarrow> string option" where
  \<comment> \<open>\<^verbatim>\<open>classCode.match(new RegExp(`\b${className}\s*\(([^)]*)\)`, "s"))?.[1]?.trim()\<close>.
      The pattern is built from a template literal, where \<^verbatim>\<open>\b\<close> is the backspace
      character U+0008 and \<^verbatim>\<open>\s\<close>, \<^verbatim>\<open>\(\<close>, \<^verbatim>\<open>\)\<close> are the plain characters
      \<^verbatim>\<open>s\<close>, \<^verbatim>\<open>(\<close>, \<^verbatim>\<open>)\<close>: the expression that is compiled is U+0008, the class
      name, \<^verbatim>\<open>s*\<close> and the group \<^verbatim>\<open>(([^)]*))\<close>, which starts right after the name\<close>
  "constructorParams cn classCode =
     map_option
       (\<lambda>(b, a). trim (takeWhile (\<lambda>c. c \<noteq> CHR '')'') (dropWhile (\<lambda>c. c = CHR ''s'') a)))
       (find_sub (CHR 0x08 # cn) classCode)"

definition this_marker_at :: "string \<Rightarrow> string \<Rightarrow> bool" where
  \<comment> \<open>\<^verbatim>\<open>this.${field.name}\<close> at the start of \<open>s\<close>; the dot is the pattern character\<close>
  "this_marker_at nm s =
     (prefix ''this'' s \<and>
      (case drop 4 s of [] \<Rightarrow> False | c # r \<Rightarrow> \<not> is_line_terminator c \<and> prefix nm r))"

definition required_marker_at :: "string \<Rightarrow> string \<Rightarrow> bool" where
  \<comment> \<open>\<^verbatim>\<open>new RegExp(`(required\s+)?this.${field.name}`)\<close> at the start of \<open>s\<close>; here too
      \<^verbatim>\<open>\s\<close> is the letter \<^verbatim>\<open>s\<close>, and the group is optional\<close>
  "required_marker_at nm s =
     ((prefix ''required'' s \<and> takeWhile (\<lambda>c. c = CHR ''s'') (drop 8 s) \<noteq> [] \<and>
       this_marker_at nm (dropWhile (\<lambda>c. c = CHR ''s'') (drop 8 s)))
      \<or> this_marker_at nm s)"

fun required_marker_test :: "string \<Rightarrow> string \<Rightarrow> bool" where
  \<comment> \<open>\<^verbatim>\<open>.test(constructorParams)\<close>: a match at some start position\<close>
  "required_marker_test nm [] = False"
| "required_marker_test nm (c # cs) =
     (required_marker_at nm (c # cs) \<or> required_marker_test nm cs)"

definition fields_v4 :: "naming_style \<Rightarrow> string \<Rightarrow> string \<Rightarrow> plain_field list" where
  \<comment> \<open>\<^verbatim>\<open>fields\<close> after \<^verbatim>\<open>if (constructorParams) { fields = fields.map(...) }\<close>\<close>
  "fields_v4 style cn classCode =
     (let fs = map (plain_field_of_match style) (fieldMatches classCode)
      in case constructorParams cn classCode of
           None \<Rightarrow> fs
         | Some ps \<Rightarrow>
             if ps = [] then fs
             else map (\<lambda>f. f\<lparr>nullable := \<not> required_marker_test (name f) ps\<rparr>) fs)"

section \<open>Orchestrator\<close>

text \<open>
  The editor is the document text and the selected range, as offsets. A run takes the
  active editor (if any), the answer to the suffix prompt and the answer to the naming
  style prompt (\<open>None\<close> when the prompt is dismissed), and yields the error messages it
  shows and the replacements it makes inside \<^verbatim>\<open>editor.edit\<close>. A range is kept as the two
  offsets that the source hands to \<^verbatim>\<open>positionAt\<close>.
\<close>

record editor =
  document :: string
  selection :: "nat \<times> nat"

record edit =
  range_start :: nat
  range_end :: nat
  newText :: string

record outcome =
  shown :: "string list"
  applied :: "edit list"

definition getText :: "string \<Rightarrow> nat \<times> nat \<Rightarrow> string" where
  \<comment> \<open>\<^verbatim>\<open>editor.document.getText(selection)\<close>\<close>
  "getText doc r = (case r of (s, e) \<Rightarrow> take (e - s) (drop s doc))"

definition classCode_of :: "editor \<Rightarrow> string" where
  \<comment> \<open>\<^verbatim>\<open>editor.document.getText(selection).trim() || editor.document.getText()\<close>\<close>
  "classCode_of ed =
     (let t = trim (getText (document ed) (selection ed)) in if t \<noteq> [] then t else document ed)"

definition suffix_of :: "string option \<Rightarrow> string" where
  \<comment> \<open>\<^verbatim>\<open>(await vscode.window.showInputBox(...))?.trim() ?? ""\<close>\<close>
  "suffix_of answer = (case answer of Some s \<Rightarrow> trim s | None \<Rightarrow> [])"

definition showErrorMessage :: "string \<Rightarrow> outcome" where
  \<comment> \<open>\<^verbatim>\<open>return vscode.window.showErrorMessage(msg)\<close>: the run ends with this message\<close>
  "showErrorMessage msg = \<lparr>shown = [msg], applied = []\<rparr>"

definition replace_document :: "editor \<Rightarrow> string \<Rightarrow> outcome" where
  \<comment> \<open>\<^verbatim>\<open>editBuilder.replace\<close> of the range from offset 0 to the length of the document\<close>
  "replace_document ed t =
     \<lparr>shown = [], applied = [\<lparr>range_start = 0, range_end = length (document ed), newText = t\<rparr>]\<rparr>"

definition apply_edits :: "string \<Rightarrow> edit list \<Rightarrow> string" where
  \<comment> \<open>the document after \<^verbatim>\<open>editor.edit\<close>: every range, given in the offsets of the
      document before the edit, is replaced; the ranges follow each other\<close>
  "apply_edits doc es =
     foldr (\<lambda>e d. take (range_start e) d @ newText e @ drop (range_end e) d) es doc"

definition document_after :: "string \<Rightarrow> outcome \<Rightarrow> string" where
  "document_after doc out = apply_edits doc (applied out)"

definition dataClass_v1 :: "editor option \<Rightarrow> string option \<Rightarrow> naming_style option \<Rightarrow> outcome" where
  "dataClass_v1 activeTextEditor suffixAnswer namingStyle =
     (case activeTextEditor of
        None \<Rightarrow> showErrorMessage ''No active editor found.''
      | Some ed \<Rightarrow>
          (let classCode = classCode_of ed; sfx = suffix_of suffixAnswer
           in case namingStyle of
                None \<Rightarrow> showErrorMessage ''No naming style selected.''
              | Some style \<Rightarrow>
                  (case classNameMatch classCode of
                     None \<Rightarrow> showErrorMessage ''No valid Dart class found.''
                   | Some cn \<Rightarrow>
                       if fieldMatches classCode = []
                       then showErrorMessage ''No valid fields found in class.''
                       else replace_document ed
                              (trim (classTemplate_v1 (cn @ sfx) (fields_of style classCode))))))"

definition dataClass_v4 :: "editor option \<Rightarrow> string option \<Rightarrow> naming_style option \<Rightarrow> outcome" where
  "dataClass_v4 activeTextEditor suffixAnswer namingStyle =
     (case activeTextEditor of
        None \<Rightarrow> showErrorMessage ''No active editor found.''
      | Some ed \<Rightarrow>
          (let classCode = classCode_of ed; sfx = suffix_of suffixAnswer
           in case namingStyle of
                None \<Rightarrow> showErrorMessage ''No naming style selected.''
              | Some style \<Rightarrow>
                  (case classNameMatch classCode of
                     None \<Rightarrow> showErrorMessage ''No valid Dart class found.''
                   | Some cn \<Rightarrow>
                       if fieldMatches classCode = []
                       then showErrorMessage ''No valid fields found in class.''
                       else replace_document ed
                              (trim (classTemplate_v4 (includes_str classCode ''Equatable'')
                                       (cn @ sfx) (fields_v4 style cn classCode))))))"

definition no_fields_message :: "string \<Rightarrow> string" where
  \<comment> \<open>\<^verbatim>\<open>`No valid fields found in class ${className}.`\<close>\<close>
  "no_fields_message cn = ''No valid fields found in class '' @ cn @ ''.''"

definition edit_of_match :: "class_match \<Rightarrow> string \<Rightarrow> edit" where
  \<comment> \<open>\<^verbatim>\<open>edits.push({ range: new vscode.Range(start, end), newText: updatedClass.trim() })\<close>\<close>
  "edit_of_match m updatedClass =
     \<lparr>range_start = m_index m, range_end = m_index m + length (m_text m),
      newText = trim updatedClass\<rparr>"

fun class_loop_v2 :: "naming_style \<Rightarrow> string \<Rightarrow> class_match list \<Rightarrow> outcome" where
  \<comment> \<open>the body of the \<^verbatim>\<open>while\<close> loop, for each match in turn: a class without fields
      shows its message and is passed over, any other class adds its edit\<close>
  "class_loop_v2 style sfx [] = \<lparr>shown = [], applied = []\<rparr>"
| "class_loop_v2 style sfx (m # ms) =
     (let fs = fields_of_lines style (m_classBody m); rest = class_loop_v2 style sfx ms
      in if fs = []
         then rest\<lparr>shown := no_fields_message (m_className m) # shown rest\<rparr>
         else rest\<lparr>applied := edit_of_match m (updatedClass_v2 (m_className m @ sfx) fs)
                                 # applied rest\<rparr>)"

fun class_loop_v3 :: "naming_style \<Rightarrow> string \<Rightarrow> class_match list \<Rightarrow> outcome" where
  "class_loop_v3 style sfx [] = \<lparr>shown = [], applied = []\<rparr>"
| "class_loop_v3 style sfx (m # ms) =
     (let rest = class_loop_v3 style sfx ms
      in if fieldMatches (m_classBody m) = []
         then rest\<lparr>shown := no_fields_message (m_className m) # shown rest\<rparr>
         else rest\<lparr>applied := edit_of_match m (updatedClass_v3 (m_className m @ sfx)
                                                   (fields_of style (m_classBody m)))
                                 # applied rest\<rparr>)"

definition finish_loop :: "outcome \<Rightarrow> outcome" where
  \<comment> \<open>\<^verbatim>\<open>if (edits.length === 0) return showErrorMessage(...)\<close>, else \<^verbatim>\<open>editor.edit\<close>\<close>
  "finish_loop out =
     (if applied out = [] then out\<lparr>shown := shown out @ [''No Dart class found to update.'']\<rparr>
      else out)"

definition dataClass_v2 :: "editor option \<Rightarrow> string option \<Rightarrow> naming_style option \<Rightarrow> outcome" where
  "dataClass_v2 activeTextEditor suffixAnswer namingStyle =
     (case activeTextEditor of
        None \<Rightarrow> showErrorMessage ''No active editor found.''
      | Some ed \<Rightarrow>
          (let classCode = classCode_of ed; sfx = suffix_of suffixAnswer
           in case namingStyle of
                None \<Rightarrow> showErrorMessage ''No naming style selected.''
              | Some style \<Rightarrow> finish_loop (class_loop_v2 style sfx (classMatches 0 classCode))))"

definition dataClass_v3 :: "editor option \<Rightarrow> string option \<Rightarrow> naming_style option \<Rightarrow> outcome" where
  "dataClass_v3 activeTextEditor suffixAnswer namingStyle =
     (case activeTextEditor of
        None \<Rightarrow> showErrorMessage ''No active editor found.''
      | Some ed \<Rightarrow>
          (let classCode = classCode_of ed; sfx = suffix_of suffixAnswer
           in case namingStyle of
                None \<Rightarrow> showErrorMessage ''No naming style selected.''
              | Some style \<Rightarrow> finish_loop (class_loop_v3 style sfx (classMatches 0 classCode))))"

section \<open>Sample inputs\<close>

definition sample_one_class :: editor where
  "sample_one_class = \<lparr>document = ''class A { int x; }'', selection = (0, 0)\<rparr>"

definition sample_no_class :: editor where
  "sample_no_class = \<lparr>document = ''void main() { }'', selection = (0, 0)\<rparr>"

definition sample_two_classes :: editor where
  "sample_two_classes =
     \<lparr>document = ''class A {'' @ NL @ ''  final int x;'' @ NL @ ''}'' @ NL @ ''class B {'' @ NL @ ''}'',
      selection = (0, 0)\<rparr>"

definition sample_nested_braces :: string where
  "sample_nested_braces = ''class A { void f() { } final int x; }''"

definition sample_nested_match :: class_match where
  "sample_nested_match =
     \<lparr>m_index = 0, m_text = ''class A { void f() { }'', m_className = ''A'',
      m_classBody = '' void f() { ''\<rparr>"

definition sample_field_enum :: field where
  "sample_field_enum =
     \<lparr>type = ''Count'', name = ''count'', snakeName = ''count'', nullable = False,
      isEnum = True, isClass = False, customParsing = no_parsing\<rparr>"

definition sample_repeated_value :: string where
  \<comment> \<open>a class whose \<^verbatim>\<open>Parsing\<close> directive names \<^verbatim>\<open>value\<close> twice in each expression\<close>
  "sample_repeated_value =
     ''class A {'' @ NL
     @ ''  final Pair p; // Parsing: Pair.of(value, value), value.a + value.b'' @ NL
     @ ''}''"

definition sample_enum_trailing :: string where
  \<comment> \<open>the enum directive in the comment that trails the field\<close>
  "sample_enum_trailing =
     ''class User {'' @ NL @ ''  final Count count; // Type: enum'' @ NL @ ''}''"

definition sample_enum_above :: string where
  \<comment> \<open>the enum directive on the comment line above the field\<close>
  "sample_enum_above =
     ''class User {'' @ NL @ ''  // Type: enum'' @ NL @ ''  final Count count;'' @ NL @ ''}''"

definition sample_enum_collision :: string where
  \<comment> \<open>the text \<^verbatim>\<open>count;\<close> also ends an earlier declaration that has its own comment\<close>
  "sample_enum_collision =
     ''class User {'' @ NL @ ''  final int account; // x'' @ NL
     @ ''  final Count count; // Type: enum'' @ NL @ ''}''"

definition sample_enum_builtin_above :: string where
  "sample_enum_builtin_above =
     ''class A {'' @ NL @ ''  // Type: enum'' @ NL @ ''  final int count;'' @ NL @ ''}''"

definition sample_enum_builtin_trailing :: string where
  "sample_enum_builtin_trailing =
     ''class A {'' @ NL @ ''  final int count; // Type: enum'' @ NL @ ''}''"

definition sample_field_int :: field where
  "sample_field_int =
     \<lparr>type = ''int'', name = ''count'', snakeName = ''count'', nullable = False,
      isEnum = False, isClass = False, customParsing = no_parsing\<rparr>"

definition sample_enum_builtin_body :: string where
  \<comment> \<open>the body of the class above\<close>
  "sample_enum_builtin_body = NL @ ''  // Type: enum'' @ NL @ ''  final int count;'' @ NL"

definition sample_nullable_nested :: string where
  "sample_nullable_nested = ''class User {'' @ NL @ ''  final SubType? subType;'' @ NL @ ''}''"

definition sample_nullable_nested_body :: string where
  "sample_nullable_nested_body = NL @ ''  final SubType? subType;'' @ NL"

definition sample_ctor_required :: string where
  \<comment> \<open>a class with its constructor, as Dart source has it\<close>
  "sample_ctor_required =
     ''class User {'' @ NL @ ''  final String? name;'' @ NL @ ''  final int? age;'' @ NL @ NL
     @ ''  const User({required this.name, this.age});'' @ NL @ ''}''"

definition sample_enum_above_body :: string where
  "sample_enum_above_body = NL @ ''  // Type: enum'' @ NL @ ''  final Count count;'' @ NL"

definition sample_directives_above :: string where
  \<comment> \<open>directives in the comment lines above the fields; the first field carries both\<close>
  "sample_directives_above =
     ''class User {'' @ NL
     @ ''  // Type: enum'' @ NL
     @ ''  // Parsing: Count.fromString(value), Count.serialize(value)'' @ NL
     @ ''  final Count count;'' @ NL
     @ ''  // Type: enum'' @ NL
     @ ''  final Mode mode;'' @ NL
     @ ''  final SubType? subType;'' @ NL
     @ ''  final String name;'' @ NL
     @ ''}''"

definition sample_directives_body :: string where
  "sample_directives_body =
     NL @ ''  // Type: enum'' @ NL
     @ ''  // Parsing: Count.fromString(value), Count.serialize(value)'' @ NL
     @ ''  final Count count;'' @ NL
     @ ''  // Type: enum'' @ NL
     @ ''  final Mode mode;'' @ NL
     @ ''  final SubType? subType;'' @ NL
     @ ''  final String name;'' @ NL"

definition sample_selected_classes :: editor where
  \<comment> \<open>two classes below a comment line; the selection holds the two classes\<close>
  "sample_selected_classes =
     \<lparr>document = ''// header'' @ NL @ ''class A {'' @ NL @ ''  final int x;'' @ NL @ ''}'' @ NL
                   @ ''class B {'' @ NL @ ''}'',
      selection = (10, 48)\<rparr>"

section \<open>Properties of the Case Converter\<close>

lemma is_upper_not_lower: "is_upper c \<Longrightarrow> \<not> is_lower c"
  by (auto simp: is_upper_def is_lower_def uppers_def lowers_def)

lemma is_digit_not_upper: "is_digit c \<Longrightarrow> \<not> is_upper c"
  by (auto simp: is_upper_def is_digit_def uppers_def digits_def)

lemma toLowerCase_char_id: "\<not> is_upper c \<Longrightarrow> toLowerCase_char c = c"
  by (simp add: toLowerCase_char_def is_upper_def uppers_def lowers_def)

lemma toUpperCase_char_id: "\<not> is_lower c \<Longrightarrow> toUpperCase_char c = c"
  by (simp add: toUpperCase_char_def is_lower_def uppers_def lowers_def)

lemma toLowerCase_id: "list_all (\<lambda>c. \<not> is_upper c) s \<Longrightarrow> toLowerCase s = s"
  by (induction s) (simp_all add: toLowerCase_def toLowerCase_char_id)

lemma mark_boundaries_id: "list_all (\<lambda>c. \<not> is_upper c) s \<Longrightarrow> mark_boundaries sep s = s"
  by (induction sep s rule: mark_boundaries.induct) simp_all

lemma camelCase_id: "CHR ''_'' \<notin> set s \<Longrightarrow> camelCase s = s"
  by (induction s rule: camelCase.induct) auto

lemma pascal_rest_id: "CHR ''_'' \<notin> set s \<Longrightarrow> pascal_rest s = s"
  by (induction s rule: pascal_rest.induct) auto

lemma is_alnum_not_underscore: "is_alnum c \<Longrightarrow> c \<noteq> CHR ''_''"
  by (auto simp: is_alnum_def is_lower_def is_upper_def is_digit_def lowers_def uppers_def digits_def)

lemma alnum_no_underscore: "list_all is_alnum s \<Longrightarrow> CHR ''_'' \<notin> set s"
  by (induction s) (auto dest: is_alnum_not_underscore)

lemma pascal_callback_upper: "is_upper c \<Longrightarrow> pascal_callback [c] = [c]"
proof -
  assume u: "is_upper c"
  then have "c \<noteq> CHR ''_''"
    by (auto simp: is_upper_def uppers_def)
  then have "replace_str [c] ''_'' '''' = [c]"
    by (simp add: replace_str_def)
  with u show ?thesis
    by (simp add: pascal_callback_def toUpperCase_def toUpperCase_char_id is_upper_not_lower)
qed

lemma not_upper_snake: "is_lower c \<or> is_digit c \<or> c = CHR ''_'' \<Longrightarrow> \<not> is_upper c"
  by (auto simp: is_upper_def is_lower_def is_digit_def uppers_def lowers_def digits_def)

lemma not_upper_kebab: "is_lower c \<or> is_digit c \<or> c = CHR ''-'' \<Longrightarrow> \<not> is_upper c"
  by (auto simp: is_upper_def is_lower_def is_digit_def uppers_def lowers_def digits_def)

text \<open>
  Claim C8. For every naming style, the case converter of that style returns a name that is
  already in the style's canonical form unchanged; so the snake_case converter maps
  \<^verbatim>\<open>user_id\<close> to itself and the PascalCase converter maps \<^verbatim>\<open>UserId\<close> to itself.
\<close>

theorem convertCase_canonical_unchanged:
  "canonical style nm \<Longrightarrow> convertCase style nm = nm"
proof (cases style)
  case CamelCase
  assume "canonical style nm"
  with CamelCase obtain c cs where n: "nm = c # cs" "is_lower c" "list_all is_alnum cs"
    by (auto split: list.splits)
  then have "list_all is_alnum nm"
    by (simp add: is_alnum_def)
  then show ?thesis
    using CamelCase by (simp add: camelCase_id alnum_no_underscore)
next
  case SnakeCase
  assume "canonical style nm"
  with SnakeCase have "list_all (\<lambda>c. \<not> is_upper c) nm"
    using not_upper_snake by (auto simp: list_all_iff)
  then show ?thesis
    using SnakeCase by (simp add: snake_case_def mark_boundaries_id toLowerCase_id)
next
  case PascalCase
  assume "canonical style nm"
  with PascalCase obtain c cs where n: "nm = c # cs" "is_upper c" "list_all is_alnum cs"
    by (auto split: list.splits)
  then have "is_word c"
    by (simp add: is_word_def)
  with n show ?thesis
    using PascalCase by (simp add: pascal_callback_upper pascal_rest_id alnum_no_underscore)
next
  case KebabCase
  assume "canonical style nm"
  with KebabCase have "list_all (\<lambda>c. \<not> is_upper c) nm"
    using not_upper_kebab by (auto simp: list_all_iff)
  then show ?thesis
    using KebabCase by (simp add: kebab_case_def mark_boundaries_id toLowerCase_id)
next
  case Original
  then show ?thesis by simp
qed

theorem convertCase_canonical_unchanged_witness:
  "canonical SnakeCase ''user_id'' \<and> convertCase SnakeCase ''user_id'' = ''user_id''
   \<and> canonical PascalCase ''UserId'' \<and> convertCase PascalCase ''UserId'' = ''UserId''"
proof -
  have s: "canonical SnakeCase ''user_id''"
    by (simp add: is_lower_def is_digit_def lowers_def digits_def)
  have p: "canonical PascalCase ''UserId''"
    by (simp add: is_alnum_def is_lower_def is_upper_def is_digit_def lowers_def uppers_def digits_def)
  show ?thesis
    using s p convertCase_canonical_unchanged [OF s] convertCase_canonical_unchanged [OF p]
    by simp
qed

section \<open>Properties of the string primitives and the scanners\<close>

lemma find_sub_Some: "find_sub p s = Some (b, a) \<Longrightarrow> s = b @ p @ a"
proof (induction s arbitrary: b)
  case Nil
  then show ?case by (simp split: if_splits)
next
  case (Cons c cs)
  show ?case
  proof (cases "prefix p (c # cs)")
    case True
    with Cons.prems have "b = []" "a = drop (length p) (c # cs)"
      by simp_all
    with True show ?thesis
      by (auto simp: prefix_def)
  next
    case False
    with Cons.prems obtain b' where "find_sub p cs = Some (b', a)" "b = c # b'"
      by auto
    with Cons.IH show ?thesis
      by simp
  qed
qed

lemma find_sub_first:
  "find_sub p s = Some (b, a) \<Longrightarrow> k < length b \<Longrightarrow> \<not> prefix p (drop k s)"
proof (induction s arbitrary: b k)
  case Nil
  then show ?case by (simp split: if_splits)
next
  case (Cons c cs)
  show ?case
  proof (cases "prefix p (c # cs)")
    case True
    with Cons.prems show ?thesis by simp
  next
    case False
    with Cons.prems obtain b' where b: "find_sub p cs = Some (b', a)" "b = c # b'"
      by auto
    show ?thesis
    proof (cases k)
      case 0
      with False show ?thesis by simp
    next
      case (Suc j)
      with Cons.prems b have "j < length b'" by simp
      from Cons.IH [OF b(1) this] Suc show ?thesis by simp
    qed
  qed
qed

lemma get_substitution_plain: "CHR ''$'' \<notin> set r \<Longrightarrow> get_substitution m b a r = r"
  by (induction m b a r rule: get_substitution.induct) auto

lemma replace_str_first:
  "find_sub p s = Some (b, a) \<Longrightarrow> CHR ''$'' \<notin> set r \<Longrightarrow> replace_str s p r = b @ r @ a"
  by (simp add: replace_str_def get_substitution_plain)

lemma word_not_dollar: "is_word c \<Longrightarrow> c \<noteq> CHR ''$''"
  by (auto simp: is_word_def is_lower_def is_upper_def is_digit_def lowers_def uppers_def digits_def)

lemma toUpperCase_char_dollar:
  "(toUpperCase_char c = CHR ''$'') = (c = CHR ''$'')" "(CHR ''$'' = toUpperCase_char c) = (c = CHR ''$'')"
  by (auto simp: toUpperCase_char_def lowers_def uppers_def split: if_splits)

lemma toLowerCase_char_dollar:
  "(toLowerCase_char c = CHR ''$'') = (c = CHR ''$'')" "(CHR ''$'' = toLowerCase_char c) = (c = CHR ''$'')"
  by (auto simp: toLowerCase_char_def lowers_def uppers_def split: if_splits)

lemma camelCase_dollar: "CHR ''$'' \<notin> set s \<Longrightarrow> CHR ''$'' \<notin> set (camelCase s)"
  by (induction s rule: camelCase.induct) (auto simp: toUpperCase_char_dollar)

lemma mark_boundaries_dollar:
  "CHR ''$'' \<notin> set s \<Longrightarrow> sep \<noteq> CHR ''$'' \<Longrightarrow> CHR ''$'' \<notin> set (mark_boundaries sep s)"
  by (induction sep s rule: mark_boundaries.induct) auto

lemma toLowerCase_dollar: "CHR ''$'' \<notin> set s \<Longrightarrow> CHR ''$'' \<notin> set (toLowerCase s)"
  by (induction s) (auto simp: toLowerCase_def toLowerCase_char_dollar)

lemma toUpperCase_dollar: "CHR ''$'' \<notin> set s \<Longrightarrow> CHR ''$'' \<notin> set (toUpperCase s)"
  by (induction s) (auto simp: toUpperCase_def toUpperCase_char_dollar)

lemma pascal_callback_one: "pascal_callback [c] = (if c = CHR ''_'' then [] else [toUpperCase_char c])"
  by (simp add: pascal_callback_def replace_str_def toUpperCase_def)

lemma pascal_callback_two: "pascal_callback [CHR ''_'', d] = [toUpperCase_char d]"
  by (simp add: pascal_callback_def replace_str_def toUpperCase_def)

lemma pascal_rest_dollar: "CHR ''$'' \<notin> set s \<Longrightarrow> CHR ''$'' \<notin> set (pascal_rest s)"
  by (induction s rule: pascal_rest.induct) (auto simp: pascal_callback_two toUpperCase_char_dollar)

lemma pascalCase_dollar: "CHR ''$'' \<notin> set s \<Longrightarrow> CHR ''$'' \<notin> set (pascalCase s)"
  by (cases s) (auto simp: pascal_callback_one pascal_rest_dollar toUpperCase_char_dollar)

lemma convertCase_dollar: "CHR ''$'' \<notin> set s \<Longrightarrow> CHR ''$'' \<notin> set (convertCase style s)"
  by (cases style)
    (simp_all add: camelCase_dollar pascalCase_dollar snake_case_def kebab_case_def
      toLowerCase_dollar mark_boundaries_dollar)

lemma words_no_dollar: "list_all is_word s \<Longrightarrow> CHR ''$'' \<notin> set s"
  by (induction s) (auto dest: word_not_dollar)

lemma field_at_words:
  "field_at s = Some (t, n, rest) \<Longrightarrow> list_all is_word n"
  by (auto simp: field_at_def Let_def list_all_iff split: if_splits dest: set_takeWhileD)

lemma fieldMatches_words:
  "(t, n) \<in> set (fieldMatches s) \<Longrightarrow> list_all is_word n"
proof (induction s rule: fieldMatches.induct)
  case 1
  then show ?case by simp
next
  case (2 c cs)
  then show ?case
    by (cases "field_at (c # cs)") (auto dest: field_at_words)
qed

lemma fields_of_names:
  "f \<in> set (fields_of style classCode) \<Longrightarrow>
     list_all is_word (name f) \<and> snakeName f = convertCase style (name f)"
  by (auto simp: fields_of_def field_of_match_def split: prod.splits dest: fieldMatches_words)

lemma final_field_at_words: "final_field_at s = Some (t, n) \<Longrightarrow> list_all is_word n"
  by (auto simp: final_field_at_def Let_def split: if_splits dest: field_at_words)

lemma scan_lines_names:
  "f \<in> set (scan_lines style prev ls) \<Longrightarrow>
     list_all is_word (name f) \<and> snakeName f = convertCase style (name f)"
proof (induction ls arbitrary: prev)
  case Nil
  then show ?case by simp
next
  case (Cons l ls)
  show ?case
  proof (cases "final_field_at (trim l)")
    case None
    with Cons show ?thesis by simp
  next
    case (Some m)
    obtain t n where m: "m = (t, n)" by (cases m) auto
    from Some m have w: "list_all is_word n"
      using final_field_at_words by blast
    from Cons.prems Some have "f = field_of_line style prev m \<or> f \<in> set (scan_lines style (l # prev) ls)"
      by simp
    then show ?thesis
    proof
      assume "f = field_of_line style prev m"
      with w m show ?thesis
        by (simp add: field_of_line_def Let_def)
    next
      assume "f \<in> set (scan_lines style (l # prev) ls)"
      with Cons.IH show ?thesis by blast
    qed
  qed
qed

lemma fields_of_lines_names:
  "f \<in> set (fields_of_lines style classBody) \<Longrightarrow>
     list_all is_word (name f) \<and> snakeName f = convertCase style (name f)"
  unfolding fields_of_lines_def by (rule scan_lines_names)

lemma lazy_body_span:
  "lazy_body s = Some (b, rest) \<Longrightarrow> s = b @ ''}'' @ rest \<and> CHR ''}'' \<notin> set b"
  by (induction s arbitrary: b) (auto split: if_splits)

lemma prefix_drop: "prefix p s \<Longrightarrow> n = length p \<Longrightarrow> s = p @ drop n s"
  by (auto simp: prefix_def)

lemma class_at_shape:
  assumes "class_at s = Some (w, b, rest)"
  shows "\<exists>ws ws'. s = ''class'' @ ws @ w @ ws' @ ''{'' @ b @ ''}'' @ rest
           \<and> ws \<noteq> [] \<and> list_all is_space ws \<and> list_all is_space ws'
           \<and> w \<noteq> [] \<and> list_all is_word w \<and> CHR ''}'' \<notin> set b"
proof -
  define r where "r = drop 5 s"
  define r1 where "r1 = dropWhile is_space r"
  define r2 where "r2 = dropWhile is_space (dropWhile is_word r1)"
  from assms have p: "prefix ''class'' s" and ws: "takeWhile is_space r \<noteq> []"
    and w: "w = takeWhile is_word r1" "w \<noteq> []" and b: "prefix ''{'' r2"
    and l: "lazy_body (drop 1 r2) = Some (b, rest)"
    by (auto simp: class_at_def Let_def r_def r1_def r2_def split: if_splits)
  from p have s: "s = ''class'' @ r"
    unfolding r_def by (rule prefix_drop) simp_all
  have 1: "r = takeWhile is_space r @ r1"
    by (simp add: r1_def)
  have 2: "r1 = w @ dropWhile is_word r1"
    by (simp add: w)
  have 3: "dropWhile is_word r1 = takeWhile is_space (dropWhile is_word r1) @ r2"
    by (simp add: r2_def)
  from b have 4: "r2 = ''{'' @ drop 1 r2"
    by (rule prefix_drop) simp_all
  from l have 5: "drop 1 r2 = b @ ''}'' @ rest" and nb: "CHR ''}'' \<notin> set b"
    using lazy_body_span by blast+
  have "s = ''class'' @ takeWhile is_space r @ w @ takeWhile is_space (dropWhile is_word r1)
              @ ''{'' @ b @ ''}'' @ rest"
    using s 1 2 3 4 5 by metis
  moreover have "list_all is_space (takeWhile is_space r)"
    by (simp add: list_all_iff) (meson set_takeWhileD)
  moreover have "list_all is_space (takeWhile is_space (dropWhile is_word r1))"
    by (simp add: list_all_iff) (meson set_takeWhileD)
  moreover have "list_all is_word w"
    unfolding w by (simp add: list_all_iff) (meson set_takeWhileD)
  ultimately show ?thesis
    using ws w nb by blast
qed

lemma class_at_match:
  assumes "class_at s = Some (w, b, rest)"
    and m_def: "m = \<lparr>m_index = i, m_text = take (length s - length rest) s, m_className = w, m_classBody = b\<rparr>"
  shows "class_shape m \<and> CHR ''}'' \<notin> set b \<and> s = m_text m @ rest"
proof -
  from class_at_shape [OF assms(1)] obtain ws ws' where
    s: "s = ''class'' @ ws @ w @ ws' @ ''{'' @ b @ ''}'' @ rest"
    and o: "ws \<noteq> []" "list_all is_space ws" "list_all is_space ws'" "w \<noteq> []" "list_all is_word w"
      "CHR ''}'' \<notin> set b"
    by blast
  define pre where "pre = ''class'' @ ws @ w @ ws' @ ''{'' @ b @ ''}''"
  from s have sp: "s = pre @ rest"
    by (simp add: pre_def)
  then have "take (length s - length rest) s = pre"
    by simp
  then have t: "m_text m = pre"
    by (simp add: m_def)
  with o show ?thesis
    unfolding class_shape_def using sp
    by (auto simp: m_def pre_def)
qed

lemma classMatches_located:
  "m \<in> set (classMatches i src) \<Longrightarrow>
     i \<le> m_index m \<and> take (length (m_text m)) (drop (m_index m - i) src) = m_text m
     \<and> class_shape m \<and> CHR ''}'' \<notin> set (m_classBody m)"
proof (induction i src rule: classMatches.induct)
  case (1 i)
  then show ?case by simp
next
  case (2 i c cs)
  show ?case
  proof (cases "class_at (c # cs)")
    case None
    with "2.prems" have "m \<in> set (classMatches (Suc i) cs)"
      by simp
    with "2.IH"(1) [OF None] have ih: "Suc i \<le> m_index m"
      "take (length (m_text m)) (drop (m_index m - Suc i) cs) = m_text m"
      "class_shape m" "CHR ''}'' \<notin> set (m_classBody m)"
      by simp_all
    from ih(1) have "m_index m - i = Suc (m_index m - Suc i)"
      by simp
    with ih show ?thesis
      by simp
  next
    case (Some t)
    obtain w b rest where t: "t = (w, b, rest)"
      by (cases t) auto
    define n where "n = length (c # cs) - length rest"
    define m0 where "m0 = \<lparr>m_index = i, m_text = take n (c # cs), m_className = w, m_classBody = b\<rparr>"
    from Some t have ca: "class_at (c # cs) = Some (w, b, rest)"
      by simp
    from class_at_match [OF ca, of m0 i] have m0: "class_shape m0" "CHR ''}'' \<notin> set b"
      and sp: "c # cs = m_text m0 @ rest"
      by (simp_all add: m0_def n_def)
    have ln: "length (m_text m0) = n"
      using sp by (simp add: n_def m0_def)
    from "2.prems" ca have "m = m0 \<or> m \<in> set (classMatches (i + n) rest)"
      by (simp add: Let_def m0_def n_def)
    then show ?thesis
    proof
      assume e: "m = m0"
      have "take (length (m_text m0)) (m_text m0 @ rest) = m_text m0"
        by simp
      with sp have "take (length (m_text m0)) (c # cs) = m_text m0"
        by simp
      moreover have "m_index m0 = i" "m_classBody m0 = b"
        by (simp_all add: m0_def)
      ultimately show ?thesis
        using m0 e by simp
    next
      assume "m \<in> set (classMatches (i + n) rest)"
      with "2.IH"(2) [OF ca refl refl refl]
      have ih: "i + n \<le> m_index m"
        "take (length (m_text m)) (drop (m_index m - (i + n)) rest) = m_text m"
        "class_shape m" "CHR ''}'' \<notin> set (m_classBody m)"
        by (simp_all add: n_def)
      have "drop (m_index m - i) (c # cs) = drop (m_index m - i) (m_text m0 @ rest)"
        using sp by simp
      also have "\<dots> = drop (m_index m - (i + n)) rest"
        using ih(1) ln by simp
      finally show ?thesis
        using ih by simp
    qed
  qed
qed

lemma find_sub_chars: "find_sub p s = Some (b, a) \<Longrightarrow> set p \<subseteq> set s"
  by (auto dest: find_sub_Some)

lemma find_sub_append: "find_sub p (A @ p @ B) \<noteq> None"
proof (induction A)
  case Nil
  have "prefix p (p @ B)"
    by simp
  then show ?case
    by (cases "p @ B") (simp_all del: same_prefix_nil)
next
  case (Cons a A)
  then show ?case by auto
qed

lemma includes_str_iff: "includes_str s p = (\<exists>A B. s = A @ p @ B)"
  unfolding includes_str_def using find_sub_append find_sub_Some
  by (metis not_None_eq surj_pair)

lemma includes_str_within: "s = A @ t @ B \<Longrightarrow> includes_str t p \<Longrightarrow> includes_str s p"
proof -
  assume s: "s = A @ t @ B" and "includes_str t p"
  then obtain A' B' where "t = A' @ p @ B'"
    unfolding includes_str_iff by blast
  with s have "s = (A @ A') @ p @ (B' @ B)"
    by simp
  then show ?thesis
    unfolding includes_str_iff by blast
qed

lemma trim_within: "\<exists>A B. s = A @ trim s @ B"
proof -
  define t where "t = dropWhile is_space s"
  have "s = takeWhile is_space s @ t"
    by (simp add: t_def)
  moreover have "rev t = takeWhile is_space (rev t) @ dropWhile is_space (rev t)"
    by simp
  then have "t = rev (dropWhile is_space (rev t)) @ rev (takeWhile is_space (rev t))"
    by (metis rev_append rev_rev_ident)
  ultimately have "s = takeWhile is_space s @ trim s @ rev (takeWhile is_space (rev t))"
    by (simp add: trim_def t_def)
  then show ?thesis
    by blast
qed

lemma includes_str_trim: "includes_str (trim s) p \<Longrightarrow> includes_str s p"
  using trim_within [of s] includes_str_within by blast

lemma strip_slashes_within: "\<exists>A B. s = A @ strip_slashes s @ B"
proof (cases "prefix ''//'' s")
  case True
  then have "s = ''//'' @ strip_slashes s @ []"
    by (auto simp: strip_slashes_def prefix_def)
  then show ?thesis
    by blast
next
  case False
  then have "s = [] @ strip_slashes s @ []"
    by (simp add: strip_slashes_def)
  then show ?thesis
    by blast
qed

lemma includes_across_newline:
  assumes "includes_str (X @ NL @ Y) p" and "CHR 0x0A \<notin> set p"
  shows "includes_str X p \<or> includes_str Y p"
proof -
  from assms(1) obtain A B where e: "X @ NL @ Y = A @ p @ B"
    unfolding includes_str_iff by blast
  then consider us where "X = A @ us" "us @ NL @ Y = p @ B"
    | us where "X @ us = A" "NL @ Y = us @ p @ B"
    by (auto simp: append_eq_append_conv2)
  then show ?thesis
  proof cases
    case 1
    from 1(2) consider vs where "us = p @ vs" | ws where "us @ ws = p" "NL @ Y = ws @ B"
      by (auto simp: append_eq_append_conv2)
    then show ?thesis
    proof cases
      case 1
      with \<open>X = A @ us\<close> have "X = A @ p @ vs"
        by simp
      then show ?thesis
        unfolding includes_str_iff by blast
    next
      case 2
      show ?thesis
      proof (cases ws)
        case Nil
        with 2 \<open>X = A @ us\<close> have "X = A @ p @ []"
          by simp
        then show ?thesis
          unfolding includes_str_iff by blast
      next
        case (Cons w ws')
        with 2 have "w = CHR 0x0A" "w \<in> set p"
          by auto
        with assms(2) show ?thesis
          by simp
      qed
    qed
  next
    case 2
    show ?thesis
    proof (cases us)
      case Nil
      with 2 have pb: "NL @ Y = p @ B"
        by simp
      show ?thesis
      proof (cases p)
        case Nil
        then have "X = X @ p @ []"
          by simp
        then show ?thesis
          unfolding includes_str_iff by blast
      next
        case (Cons c cs)
        with pb have "c = CHR 0x0A"
          by simp
        with Cons assms(2) show ?thesis
          by simp
      qed
    next
      case (Cons u us')
      with 2 have "Y = us' @ p @ B"
        by simp
      then show ?thesis
        unfolding includes_str_iff by blast
    qed
  qed
qed

lemma commentBlock_above_lines:
  assumes "includes_str (commentBlock_above prev) p" and "CHR 0x0A \<notin> set p" and "p \<noteq> []"
  shows "\<exists>l \<in> set (takeWhile (\<lambda>l. startsWith (trim l) ''//'') prev). includes_str l p"
  using assms(1)
proof (induction prev)
  case Nil
  with assms(3) show ?case
    by (simp add: includes_str_iff)
next
  case (Cons l ls)
  show ?case
  proof (cases "startsWith (trim l) ''//''")
    case False
    with Cons.prems assms(3) show ?thesis
      by (simp add: includes_str_iff)
  next
    case True
    define piece where "piece = trim (strip_slashes (trim l))"
    from True Cons.prems have "includes_str (commentBlock_above ls @ piece @ NL) p"
      by (simp add: piece_def)
    then obtain A B where "(commentBlock_above ls @ piece) @ NL @ [] = A @ p @ B"
      unfolding includes_str_iff by auto
    then have "includes_str ((commentBlock_above ls @ piece) @ NL @ []) p"
      unfolding includes_str_iff by blast
    from includes_across_newline [OF this assms(2)] assms(3)
    have ip: "includes_str (commentBlock_above ls @ piece) p"
      by (auto simp: includes_str_iff)
    have "includes_str (commentBlock_above ls) p \<or> includes_str piece p"
    proof (cases "commentBlock_above ls" rule: rev_cases)
      case Nil
      with ip show ?thesis
        by simp
    next
      case (snoc Z z)
      have "z = CHR 0x0A"
        using snoc by (cases ls) (auto split: if_splits)
      with snoc ip have "includes_str (Z @ NL @ piece) p"
        by simp
      from includes_across_newline [OF this assms(2)]
      have "includes_str Z p \<or> includes_str piece p" .
      moreover have "includes_str Z p \<Longrightarrow> includes_str (commentBlock_above ls) p"
        using snoc includes_str_within [of "commentBlock_above ls" "[]" Z "[z]" p] by simp
      ultimately show ?thesis
        by blast
    qed
    then show ?thesis
    proof
      assume "includes_str (commentBlock_above ls) p"
      with Cons.IH True show ?thesis
        by auto
    next
      assume "includes_str piece p"
      then have "includes_str (strip_slashes (trim l)) p"
        unfolding piece_def by (rule includes_str_trim)
      then have "includes_str (trim l) p"
        using strip_slashes_within [of "trim l"] includes_str_within by blast
      then have "includes_str l p"
        by (rule includes_str_trim)
      with True show ?thesis
        by auto
    qed
  qed
qed

lemma commentBlock_above_shape:
  "commentBlock_above ls = [] \<or> (\<exists>Z. commentBlock_above ls = Z @ NL)"
  by (cases ls) auto

lemma parsingMatch_needs_keyword: "parsingMatch s = Some g \<Longrightarrow> includes_str s ''Parsing:''"
proof (induction s)
  case Nil
  then show ?case by simp
next
  case (Cons c cs)
  show ?case
  proof (cases "prefix ''Parsing:'' (c # cs)")
    case True
    then obtain B where "c # cs = [] @ ''Parsing:'' @ B"
      by (auto simp: prefix_def)
    then show ?thesis
      unfolding includes_str_iff by blast
  next
    case False
    then have "(if prefix ''Parsing:'' (c # cs) then parsing_tail (drop 8 (c # cs)) else None) = None"
      by (simp only: if_False)
    with Cons.prems have "parsingMatch cs = Some g"
      by (simp only: parsingMatch.simps option.case)
    with Cons.IH have "includes_str cs ''Parsing:''"
      by blast
    then show ?thesis
      using includes_str_within [of "c # cs" "[c]" cs "[]"] by simp
  qed
qed

lemma split_lines_nonempty: "split_lines s \<noteq> []"
  by (induction s) (auto split: list.splits)

lemma split_lines_head: "\<exists>B. s = hd (split_lines s) @ B"
proof (induction s)
  case Nil
  then show ?case by simp
next
  case (Cons c cs)
  obtain h t where ht: "split_lines cs = h # t"
    using split_lines_nonempty [of cs] by (cases "split_lines cs") auto
  with Cons obtain B where "cs = h @ B"
    by auto
  with ht show ?case
    by auto
qed

lemma split_lines_within: "l \<in> set (split_lines s) \<Longrightarrow> \<exists>A B. s = A @ l @ B"
proof (induction s arbitrary: l)
  case Nil
  then have "[] = [] @ l @ []"
    by simp
  then show ?case
    by blast
next
  case (Cons c cs)
  have later: "\<exists>A B. c # cs = A @ l @ B" if "l \<in> set (split_lines cs)"
  proof -
    from Cons.IH [OF that] obtain A B where "cs = A @ l @ B"
      by blast
    then have "c # cs = (c # A) @ l @ B"
      by simp
    then show ?thesis
      by blast
  qed
  show ?case
  proof (cases "c = CHR 0x0A")
    case True
    with Cons.prems have "l = [] \<or> l \<in> set (split_lines cs)"
      by simp
    then show ?thesis
    proof
      assume "l = []"
      then have "c # cs = [] @ l @ (c # cs)"
        by simp
      then show ?thesis
        by blast
    next
      assume "l \<in> set (split_lines cs)"
      then show ?thesis
        by (rule later)
    qed
  next
    case False
    obtain h t where ht: "split_lines cs = h # t"
      using split_lines_nonempty [of cs] by (cases "split_lines cs") auto
    with False Cons.prems have "l = c # h \<or> l \<in> set t"
      by simp
    then show ?thesis
    proof
      assume l: "l = c # h"
      from split_lines_head [of cs] ht obtain B where "cs = h @ B"
        by auto
      with l have "c # cs = [] @ l @ B"
        by simp
      then show ?thesis
        by blast
    next
      assume "l \<in> set t"
      with ht have "l \<in> set (split_lines cs)"
        by simp
      then show ?thesis
        by (rule later)
    qed
  qed
qed

lemma spaces_dot_plus_within: "spaces_dot_plus s = Some g \<Longrightarrow> \<exists>A B. s = A @ g @ B"
proof (induction s)
  case Nil
  then show ?case by simp
next
  case (Cons c cs)
  have here: "\<exists>A B. c # cs = A @ g @ B" if "dot_plus (c # cs) = Some g"
  proof -
    from that have "g = takeWhile (\<lambda>c. \<not> is_line_terminator c) (c # cs)"
      by (auto simp: dot_plus_def Let_def split: if_splits)
    then have "c # cs = [] @ g @ dropWhile (\<lambda>c. \<not> is_line_terminator c) (c # cs)"
      by simp
    then show ?thesis
      by blast
  qed
  show ?case
  proof (cases "is_space c \<and> spaces_dot_plus cs \<noteq> None")
    case True
    with Cons.prems have "spaces_dot_plus cs = Some g"
      by auto
    with Cons.IH obtain A B where "cs = A @ g @ B"
      by blast
    then have "c # cs = (c # A) @ g @ B"
      by simp
    then show ?thesis
      by blast
  next
    case False
    with Cons.prems have "dot_plus (c # cs) = Some g"
      by (auto split: if_splits option.splits)
    then show ?thesis
      by (rule here)
  qed
qed

lemma commentMatch_within: "commentMatch nm s = Some g \<Longrightarrow> \<exists>A B. s = A @ g @ B"
proof (induction s)
  case Nil
  then show ?case by simp
next
  case (Cons c cs)
  show ?case
  proof (cases "comment_at nm (c # cs)")
    case None
    with Cons obtain A B where "cs = A @ g @ B"
      by auto
    then have "c # cs = (c # A) @ g @ B"
      by simp
    then show ?thesis
      by blast
  next
    case (Some g')
    with Cons.prems have g: "g' = g"
      by simp
    define r where "r = dropWhile is_space (drop (length nm + 1) (c # cs))"
    from Some g have "spaces_dot_plus (drop 2 r) = Some g"
      by (auto simp: comment_at_def Let_def r_def split: if_splits)
    then obtain A B where ab: "drop 2 r = A @ g @ B"
      using spaces_dot_plus_within by blast
    have "c # cs = take (length nm + 1) (c # cs) @ drop (length nm + 1) (c # cs)"
      by simp
    also have "drop (length nm + 1) (c # cs)
        = takeWhile is_space (drop (length nm + 1) (c # cs)) @ r"
      by (simp add: r_def)
    also have "r = take 2 r @ drop 2 r"
      by simp
    finally have "c # cs = (take (length nm + 1) (c # cs)
        @ takeWhile is_space (drop (length nm + 1) (c # cs)) @ take 2 r @ A) @ g @ B"
      by (simp add: ab)
    then show ?thesis
      by blast
  qed
qed

lemma join_contains: "x \<in> set xs \<Longrightarrow> \<exists>P Q. join sep xs = P @ x @ Q"
proof (induction sep xs rule: join.induct)
  case (1 sep)
  then show ?case by simp
next
  case (2 sep y)
  then have "join sep [y] = [] @ x @ []"
    by simp
  then show ?case
    by blast
next
  case (3 sep y z zs)
  show ?case
  proof (cases "x = y")
    case True
    then have "join sep (y # z # zs) = [] @ x @ (sep @ join sep (z # zs))"
      by simp
    then show ?thesis
      by blast
  next
    case False
    with 3 obtain P Q where "join sep (z # zs) = P @ x @ Q"
      by auto
    then have "join sep (y # z # zs) = (y @ sep @ P) @ x @ Q"
      by simp
    then show ?thesis
      by blast
  qed
qed

lemma join_contains_between:
  assumes "x \<in> set xs"
  shows "\<exists>P Q. H @ join sep xs @ T = P @ x @ Q"
proof -
  from join_contains [OF assms] obtain P Q where "join sep xs = P @ x @ Q"
    by blast
  then have "H @ join sep xs @ T = (H @ P) @ x @ (Q @ T)"
    by simp
  then show ?thesis
    by blast
qed

lemma map_update_same: "i < length xs \<Longrightarrow> g (xs ! i) = y \<Longrightarrow> (map g xs)[i := y] = map g xs"
  by (simp add: list_update_same_conv)

lemma trim_keeps_prefix:
  assumes "p \<noteq> []" and "\<not> is_space (hd p)" and "\<not> is_space (last p)"
  shows "prefix p (trim (p @ t))"
proof -
  from assms(1,2) have 1: "dropWhile is_space (p @ t) = p @ t"
    by (cases p) auto
  from assms(1,3) have 2: "dropWhile is_space (rev p) = rev p"
    by (cases "rev p") (auto simp: last_rev [symmetric] simp del: last_rev)
  have "\<exists>z. dropWhile is_space (rev t @ rev p) = z @ rev p"
  proof (cases "\<forall>x \<in> set (rev t). is_space x")
    case True
    then have "dropWhile is_space (rev t @ rev p) = dropWhile is_space (rev p)"
      by (subst dropWhile_append2) auto
    with 2 show ?thesis
      by simp
  next
    case False
    then have "dropWhile is_space (rev t @ rev p) = dropWhile is_space (rev t) @ rev p"
      by (auto simp: dropWhile_append1)
    then show ?thesis
      by blast
  qed
  then obtain z where "dropWhile is_space (rev t @ rev p) = z @ rev p"
    by blast
  with 1 have "trim (p @ t) = p @ rev z"
    by (simp add: trim_def)
  then show ?thesis
    by simp
qed

lemma word_not_semicolon: "is_word c \<Longrightarrow> c \<noteq> CHR '';''"
  by (auto simp: is_word_def is_lower_def is_upper_def is_digit_def lowers_def uppers_def digits_def)

lemma space_not_semicolon: "is_space c \<Longrightarrow> c \<noteq> CHR '';''"
  by (auto simp: is_space_def)

lemma word_not_space: "is_word c \<Longrightarrow> \<not> is_space c"
  by (auto simp: is_word_def is_lower_def is_upper_def is_digit_def lowers_def uppers_def
      digits_def is_space_def)

lemma takeWhile_words:
  "list_all is_word w \<Longrightarrow> \<not> is_word c \<Longrightarrow> takeWhile is_word (w @ c # r) = w"
  by (induction w) auto

lemma dropWhile_words:
  "list_all is_word w \<Longrightarrow> \<not> is_word c \<Longrightarrow> dropWhile is_word (w @ c # r) = c # r"
  by (induction w) auto

lemma dropWhile_space_words:
  "w \<noteq> [] \<Longrightarrow> list_all is_word w \<Longrightarrow> dropWhile is_space (w @ r) = w @ r"
  by (cases w) (auto dest: word_not_space)

text \<open>
  A match of the field pattern holds no semicolon before the one that ends it, so the
  text after the match is the text after the first semicolon.
\<close>

lemma field_at_span:
  assumes "field_at s = Some (t, n, r)"
  shows "\<exists>C. s = C @ '';'' @ r \<and> CHR '';'' \<notin> set C"
proof -
  define r1 where "r1 = dropWhile is_word s"
  define q where "q = (if prefix ''?'' r1 then ''?'' else [])"
  define r2 where "r2 = drop (length q) r1"
  define r3 where "r3 = dropWhile is_space r2"
  define r4 where "r4 = dropWhile is_word r3"
  from assms have p: "prefix '';'' r4" and r: "r = drop 1 r4"
    by (auto simp: field_at_def Let_def r1_def q_def r2_def r3_def r4_def split: if_splits)
  have 1: "s = takeWhile is_word s @ r1"
    by (simp add: r1_def)
  have "prefix q r1"
    by (simp add: q_def)
  then have 2: "r1 = q @ r2"
    unfolding r2_def by (rule prefix_drop) simp
  have 3: "r2 = takeWhile is_space r2 @ r3"
    by (simp add: r3_def)
  have 4: "r3 = takeWhile is_word r3 @ r4"
    by (simp add: r4_def)
  from p have 5: "r4 = '';'' @ r"
    unfolding r by (rule prefix_drop) simp
  define C where "C = takeWhile is_word s @ q @ takeWhile is_space r2 @ takeWhile is_word r3"
  have "s = C @ '';'' @ r"
    unfolding C_def using 1 2 3 4 5 by (metis append_assoc)
  moreover have "CHR '';'' \<notin> set C"
    unfolding C_def q_def
    by (auto dest!: set_takeWhileD dest: word_not_semicolon space_not_semicolon)
  ultimately show ?thesis
    by blast
qed

lemma field_at_rest:
  assumes "field_at s = Some (t, n, r)"
  shows "r = tl (dropWhile (\<lambda>c. c \<noteq> CHR '';'') s)"
proof -
  from field_at_span [OF assms] obtain C where s: "s = C @ '';'' @ r" and c: "CHR '';'' \<notin> set C"
    by blast
  from c have "dropWhile (\<lambda>c. c \<noteq> CHR '';'') (C @ '';'' @ r) = '';'' @ r"
    by (subst dropWhile_append2) auto
  with s show ?thesis
    by simp
qed

lemma declaration_chars:
  "is_word CHR ''C''" "is_word CHR ''o''" "is_word CHR ''u''" "is_word CHR ''n''" "is_word CHR ''t''"
  "is_word CHR ''c''" "\<not> is_word CHR '' ''" "\<not> is_word CHR '';''" "\<not> is_word CHR ''?''"
  "is_space CHR '' ''" "\<not> is_space CHR ''C''" "\<not> is_space CHR ''c''"
  by (simp_all add: is_word_def is_lower_def is_upper_def is_digit_def lowers_def uppers_def
      digits_def is_space_def)

lemma field_at_declaration:
  "field_at (''Count count;'' @ post) = Some (''Count'', ''count'', post)"
  by (simp add: field_at_def Let_def declaration_chars)

lemma no_semicolon_after:
  assumes "CHR '';'' \<notin> set c"
  shows "\<not> prefix '';'' (dropWhile is_word (dropWhile is_space (c @ ''Count count;'' @ post)))"
proof -
  define c' where "c' = dropWhile is_space c"
  have c': "CHR '';'' \<notin> set c'"
    using assms unfolding c'_def by (meson set_dropWhileD)
  have 1: "dropWhile is_space (c @ ''Count count;'' @ post) = c' @ ''Count count;'' @ post"
  proof (cases "\<forall>x \<in> set c. is_space x")
    case True
    then have "c' = []"
      by (simp add: c'_def)
    with True show ?thesis
      by (simp add: dropWhile_append2 declaration_chars)
  next
    case False
    then show ?thesis
      unfolding c'_def by (auto simp: dropWhile_append1)
  qed
  show ?thesis
  proof (cases "\<forall>x \<in> set c'. is_word x")
    case True
    then have "dropWhile is_word (c' @ ''Count count;'' @ post) = '' count;'' @ post"
      by (simp add: dropWhile_append2 declaration_chars)
    with 1 show ?thesis
      by simp
  next
    case False
    then have 2: "dropWhile is_word (c' @ ''Count count;'' @ post)
        = dropWhile is_word c' @ ''Count count;'' @ post"
      by (auto simp: dropWhile_append1)
    from False have ne: "dropWhile is_word c' \<noteq> []"
      by auto
    then have "hd (dropWhile is_word c') \<in> set c'"
      by (meson hd_in_set set_dropWhileD)
    with c' have "hd (dropWhile is_word c') \<noteq> CHR '';''"
      by metis
    with ne have "\<not> prefix '';'' (dropWhile is_word c' @ ''Count count;'' @ post)"
      by (cases "dropWhile is_word c'") auto
    with 1 2 show ?thesis
      by simp
  qed
qed

lemma field_at_before_declaration:
  assumes "CHR '';'' \<notin> set p" and "p \<noteq> []" and "last p = CHR '' ''"
  shows "field_at (p @ ''Count count;'' @ post) = None"
proof -
  define X where "X = ''Count count;'' @ post"
  define d where "d = dropWhile is_word p"
  from assms(2,3) have sp: "CHR '' '' \<in> set p"
    by (metis last_in_set)
  then have r1: "dropWhile is_word (p @ X) = d @ X"
    unfolding d_def by (auto simp: dropWhile_append1 declaration_chars)
  have dset: "set d \<subseteq> set p"
    unfolding d_def by (meson set_dropWhileD subsetI)
  from sp have dne: "d \<noteq> []"
    unfolding d_def by (auto simp: declaration_chars intro!: bexI [of _ "CHR '' ''"])
  define q where "q = (if prefix ''?'' (d @ X) then ''?'' else [])"
  have "\<exists>c. drop (length q) (d @ X) = c @ X \<and> set c \<subseteq> set p"
  proof (cases "prefix ''?'' (d @ X)")
    case True
    with dne obtain d' where "d = CHR ''?'' # d'"
      by (cases d) auto
    with True dset show ?thesis
      by (auto simp: q_def)
  next
    case False
    with dset show ?thesis
      by (auto simp: q_def)
  qed
  then obtain c where c: "drop (length q) (d @ X) = c @ X" "set c \<subseteq> set p"
    by blast
  with assms(1) have "CHR '';'' \<notin> set c"
    by blast
  from no_semicolon_after [OF this, of post, folded X_def]
  have "\<not> prefix '';'' (dropWhile is_word (dropWhile is_space (drop (length q) (d @ X))))"
    unfolding c(1) .
  then show ?thesis
    unfolding X_def [symmetric]
    by (simp add: field_at_def Let_def r1 q_def)
qed

lemma suffix_last: "suffix r p \<Longrightarrow> r \<noteq> [] \<Longrightarrow> last r = last p"
  by (auto simp: suffix_def)

text \<open>
  Whatever stands before it, the declaration \<^verbatim>\<open>Count count;\<close> after a space is a match of
  the field pattern: a match that starts earlier ends at a semicolon before the
  declaration, and the search goes on from there.
\<close>

lemma declaration_is_matched:
  "p = [] \<or> last p = CHR '' '' \<Longrightarrow>
     (''Count'', ''count'') \<in> set (fieldMatches (p @ ''Count count;'' @ post))"
proof (induction "length p" arbitrary: p rule: less_induct)
  case less
  show ?case
  proof (cases p)
    case Nil
    then show ?thesis
      using field_at_declaration [of post] by simp
  next
    case (Cons x p')
    define X where "X = ''Count count;'' @ post"
    show ?thesis
    proof (cases "field_at (p @ X)")
      case None
      from less.prems Cons have "p' = [] \<or> last p' = CHR '' ''"
        by (auto split: if_splits)
      moreover have "length p' < length p"
        using Cons by simp
      ultimately have "(''Count'', ''count'') \<in> set (fieldMatches (p' @ X))"
        unfolding X_def by (rule less.hyps [rotated])
      with None Cons show ?thesis
        by (simp add: X_def)
    next
      case (Some m)
      obtain t n r where m: "m = (t, n, r)"
        by (cases m) auto
      from Some m have fa: "field_at (p @ X) = Some (t, n, r)"
        by simp
      have semi: "CHR '';'' \<in> set p"
      proof (rule ccontr)
        assume "CHR '';'' \<notin> set p"
        moreover from less.prems Cons have "last p = CHR '' ''"
          by simp
        ultimately have "field_at (p @ X) = None"
          unfolding X_def using Cons by (intro field_at_before_declaration) simp_all
        with fa show False
          by simp
      qed
      define r' where "r' = tl (dropWhile (\<lambda>c. c \<noteq> CHR '';'') p)"
      from semi have dw: "dropWhile (\<lambda>c. c \<noteq> CHR '';'') (p @ X) = dropWhile (\<lambda>c. c \<noteq> CHR '';'') p @ X"
        by (auto simp: dropWhile_append1)
      from semi have ne: "dropWhile (\<lambda>c. c \<noteq> CHR '';'') p \<noteq> []"
        by auto
      from field_at_rest [OF fa] dw ne have r: "r = r' @ X"
        by (simp add: r'_def)
      have "suffix (dropWhile (\<lambda>c. c \<noteq> CHR '';'') p) p"
        by (rule suffix_dropWhile)
      moreover have "suffix r' (dropWhile (\<lambda>c. c \<noteq> CHR '';'') p)"
        unfolding r'_def by (rule suffix_tl)
      ultimately have sf: "suffix r' p"
        by (rule suffix_order.trans [rotated])
      have "length (dropWhile (\<lambda>c. c \<noteq> CHR '';'') p) \<le> length p"
        by (rule length_dropWhile_le)
      with ne have ln: "length r' < length p"
        unfolding r'_def by (cases "dropWhile (\<lambda>c. c \<noteq> CHR '';'') p") simp_all
      from sf less.prems Cons have "r' = [] \<or> last r' = CHR '' ''"
        using suffix_last [of r' p] by auto
      with ln have "(''Count'', ''count'') \<in> set (fieldMatches (r' @ X))"
        unfolding X_def by (rule less.hyps)
      with fa Cons r show ?thesis
        by (simp add: X_def)
    qed
  qed
qed

lemma field_at_typed:
  assumes "w \<noteq> []" "list_all is_word w" "nm \<noteq> []" "list_all is_word nm" "q = [] \<or> q = ''?''"
  shows "field_at (w @ q @ '' '' @ nm @ '';'' @ rest) = Some (w @ q, nm, rest)"
proof -
  note nw = declaration_chars(7-10)
  have 3: "dropWhile is_space ('' '' @ nm @ '';'' @ rest) = nm @ '';'' @ rest"
    using dropWhile_space_words [OF assms(3,4)] nw by simp
  have 4: "takeWhile is_word (nm @ '';'' @ rest) = nm" "dropWhile is_word (nm @ '';'' @ rest) = '';'' @ rest"
    using takeWhile_words [OF assms(4) nw(2)] dropWhile_words [OF assms(4) nw(2)] by simp_all
  from assms(5) show ?thesis
  proof
    assume q: "q = []"
    have 1: "takeWhile is_word (w @ '' '' @ nm @ '';'' @ rest) = w"
      "dropWhile is_word (w @ '' '' @ nm @ '';'' @ rest) = '' '' @ nm @ '';'' @ rest"
      using takeWhile_words [OF assms(2) nw(1)] dropWhile_words [OF assms(2) nw(1)] by simp_all
    show ?thesis
      unfolding q field_at_def Let_def append_Nil 1
      using assms(1,3) 3 4 nw by simp
  next
    assume q: "q = ''?''"
    have 1: "takeWhile is_word (w @ ''?'' @ '' '' @ nm @ '';'' @ rest) = w"
      "dropWhile is_word (w @ ''?'' @ '' '' @ nm @ '';'' @ rest) = ''?'' @ '' '' @ nm @ '';'' @ rest"
      using takeWhile_words [OF assms(2) nw(3)] dropWhile_words [OF assms(2) nw(3)] by simp_all
    show ?thesis
      unfolding q field_at_def Let_def 1
      using assms(1,3) 3 4 nw by simp
  qed
qed

lemma final_field_at_typed:
  assumes "w \<noteq> []" "list_all is_word w" "nm \<noteq> []" "list_all is_word nm" "q = [] \<or> q = ''?''"
  shows "final_field_at (''final '' @ w @ q @ '' '' @ nm @ '';'' @ rest) = Some (w @ q, nm)"
proof -
  have "dropWhile is_space ('' '' @ w @ q @ '' '' @ nm @ '';'' @ rest) = w @ q @ '' '' @ nm @ '';'' @ rest"
    using dropWhile_space_words [OF assms(1,2)] by (simp add: is_space_def)
  then show ?thesis
    using field_at_typed [OF assms, of rest]
    by (simp add: final_field_at_def Let_def is_space_def)
qed

text \<open>
  The comment search passes over every place where the name and a semicolon do not
  stand, and reads the comment at the first place where they do.
\<close>

lemma commentMatch_skip:
  "\<forall>k < length A. \<not> prefix (nm @ '';'') (drop k (A @ X)) \<Longrightarrow>
     commentMatch nm (A @ X) = commentMatch nm X"
proof (induction A)
  case Nil
  then show ?case by simp
next
  case (Cons a A)
  from Cons.prems have "\<not> prefix (nm @ '';'') (drop 0 ((a # A) @ X))"
    by blast
  then have 0: "comment_at nm (a # A @ X) = None"
    by (simp add: comment_at_def Let_def)
  have "\<forall>k < length A. \<not> prefix (nm @ '';'') (drop k (A @ X))"
  proof (intro allI impI)
    fix k
    assume "k < length A"
    then have "Suc k < length (a # A)"
      by simp
    with Cons.prems have "\<not> prefix (nm @ '';'') (drop (Suc k) ((a # A) @ X))"
      by blast
    then show "\<not> prefix (nm @ '';'') (drop k (A @ X))"
      by simp
  qed
  with Cons.IH 0 show ?case
    by simp
qed

lemma comment_at_enum:
  "comment_at nm (nm @ ''; // Type: enum'' @ post)
     = Some (''Type: enum'' @ takeWhile (\<lambda>c. \<not> is_line_terminator c) post)"
  by (simp add: comment_at_def Let_def dot_plus_def is_space_def is_line_terminator_def)

lemma commentMatch_at: "comment_at nm s = Some g \<Longrightarrow> commentMatch nm s = Some g"
  by (cases s) (auto simp: comment_at_def)

lemma commentMatch_enum:
  assumes "\<forall>k < length A. \<not> prefix (nm @ '';'') (drop k (A @ nm @ ''; // Type: enum'' @ post))"
  shows "commentMatch nm (A @ nm @ ''; // Type: enum'' @ post)
     = Some (''Type: enum'' @ takeWhile (\<lambda>c. \<not> is_line_terminator c) post)"
  using commentMatch_skip [OF assms] commentMatch_at [OF comment_at_enum [of nm post]]
  by simp

text \<open>
  The line scan builds a field for a line from the lines that stand above that line, and
  every field it builds comes from a line of the body.
\<close>

lemma scan_lines_holds:
  "final_field_at (trim d) = Some m \<Longrightarrow>
     field_of_line style (rev ls1 @ prev) m \<in> set (scan_lines style prev (ls1 @ d # ls2))"
proof (induction ls1 arbitrary: prev)
  case Nil
  then show ?case by simp
next
  case (Cons l ls1)
  from Cons.IH [OF Cons.prems, of "l # prev"]
  have "field_of_line style (rev (l # ls1) @ prev) m \<in> set (scan_lines style (l # prev) (ls1 @ d # ls2))"
    by simp
  then show ?case
    by (cases "final_field_at (trim l)") simp_all
qed

lemma scan_lines_origin:
  "f \<in> set (scan_lines style prev ls) \<Longrightarrow>
     \<exists>ls1 d ls2 m. ls = ls1 @ d # ls2 \<and> final_field_at (trim d) = Some m
        \<and> f = field_of_line style (rev ls1 @ prev) m"
proof (induction ls arbitrary: prev)
  case Nil
  then show ?case by simp
next
  case (Cons l ls)
  have later: "\<exists>ls1 d ls2 m. l # ls = ls1 @ d # ls2 \<and> final_field_at (trim d) = Some m
        \<and> f = field_of_line style (rev ls1 @ prev) m"
    if "f \<in> set (scan_lines style (l # prev) ls)"
  proof -
    from Cons.IH [OF that] obtain ls1 d ls2 m where
      "ls = ls1 @ d # ls2" "final_field_at (trim d) = Some m"
      "f = field_of_line style (rev ls1 @ l # prev) m"
      by blast
    then have "l # ls = (l # ls1) @ d # ls2 \<and> final_field_at (trim d) = Some m
        \<and> f = field_of_line style (rev (l # ls1) @ prev) m"
      by simp
    then show ?thesis
      by blast
  qed
  show ?case
  proof (cases "final_field_at (trim l)")
    case None
    with Cons.prems have "f \<in> set (scan_lines style (l # prev) ls)"
      by simp
    then show ?thesis
      by (rule later)
  next
    case (Some m)
    with Cons.prems have "f = field_of_line style prev m \<or> f \<in> set (scan_lines style (l # prev) ls)"
      by simp
    then show ?thesis
    proof
      assume "f = field_of_line style prev m"
      with Some have "l # ls = [] @ l # ls \<and> final_field_at (trim l) = Some m
        \<and> f = field_of_line style (rev [] @ prev) m"
        by simp
      then show ?thesis
        by blast
    next
      assume "f \<in> set (scan_lines style (l # prev) ls)"
      then show ?thesis
        by (rule later)
    qed
  qed
qed

section \<open>Properties of the Class Locator\<close>

text \<open>
  Claim C7. In the multi-class revisions, every located class sits in the text at its
  index; its matched text is \<^verbatim>\<open>class\<close>, white space, the name, optional white space, the
  opening brace, the body and a closing brace; and the body holds no closing brace. So the
  body runs from the opening brace to the first closing brace after it, and an inner
  opening brace is not balanced: the body of \<^verbatim>\<open>class A { void f() { } final int x; }\<close>
  ends inside the class.
\<close>

theorem class_body_ends_at_first_closing_brace:
  "m \<in> set (classMatches 0 src) \<Longrightarrow>
     take (length (m_text m)) (drop (m_index m) src) = m_text m
     \<and> (\<exists>ws ws'. m_text m = ''class'' @ ws @ m_className m @ ws' @ ''{'' @ m_classBody m @ ''}''
           \<and> ws \<noteq> [] \<and> list_all is_space ws \<and> list_all is_space ws'
           \<and> m_className m \<noteq> [] \<and> list_all is_word (m_className m))
     \<and> CHR ''}'' \<notin> set (m_classBody m)"
  using classMatches_located [of m 0 src] by (simp add: class_shape_def)

theorem class_body_ends_at_first_closing_brace_witness:
  "sample_nested_match \<in> set (classMatches 0 sample_nested_braces)
   \<and> m_classBody sample_nested_match = '' void f() { ''
   \<and> take (length (m_text sample_nested_match)) (drop (m_index sample_nested_match) sample_nested_braces)
       = m_text sample_nested_match
   \<and> CHR ''}'' \<notin> set (m_classBody sample_nested_match)"
proof -
  have h: "sample_nested_match \<in> set (classMatches 0 sample_nested_braces)"
    by code_simp
  have b: "m_classBody sample_nested_match = '' void f() { ''"
    by (simp add: sample_nested_match_def)
  show ?thesis
    using h b class_body_ends_at_first_closing_brace [OF h] by blast
qed

section \<open>Properties of the Field Extractor and the Metadata Interpreter\<close>

lemma directive_steps_enum:
  "fst (foldl directive_step (e, cp) ls) = (e \<or> (\<exists>l \<in> set ls. startsWith l ''Type: enum''))"
proof (induction ls arbitrary: e cp)
  case Nil
  then show ?case by simp
next
  case (Cons l ls)
  obtain e' cp' where s: "directive_step (e, cp) l = (e', cp')"
    by (cases "directive_step (e, cp) l") auto
  then have "e' = (e \<or> startsWith l ''Type: enum'')"
    by (auto split: if_splits option.splits)
  with Cons.IH [of e' cp'] s show ?case
    by auto
qed

lemma read_directives_enum:
  "fst (read_directives nm classCode) =
     (\<exists>g. commentMatch nm classCode = Some g
          \<and> (\<exists>l \<in> set (map trim (split_lines g)). startsWith l ''Type: enum''))"
  by (cases "commentMatch nm classCode") (simp_all add: read_directives_def directive_steps_enum)

lemma field_of_match_kind:
  "f = field_of_match style classCode (ty, nm) \<Longrightarrow>
     type f = ty \<and> name f = nm
     \<and> (replace_str ty ''?'' [] \<in> set dartBuiltInTypes \<longrightarrow> \<not> isEnum f \<and> \<not> isClass f)
     \<and> (replace_str ty ''?'' [] \<notin> set dartBuiltInTypes \<longrightarrow>
          isEnum f = fst (read_directives nm classCode) \<and> isClass f = (\<not> isEnum f))"
  by (auto simp: field_of_match_def determineFieldType_def Let_def split: prod.splits)

lemma fields_of_kind:
  assumes "f \<in> set (fields_of style classCode)"
  shows "(replace_str (type f) ''?'' [] \<in> set dartBuiltInTypes \<longrightarrow> \<not> isEnum f \<and> \<not> isClass f)
     \<and> (replace_str (type f) ''?'' [] \<notin> set dartBuiltInTypes \<longrightarrow>
          isEnum f = fst (read_directives (name f) classCode) \<and> isClass f = (\<not> isEnum f))"
proof -
  from assms obtain ty nm where "f = field_of_match style classCode (ty, nm)"
    by (auto simp: fields_of_def)
  from field_of_match_kind [OF this] show ?thesis
    by simp
qed

lemma scan_lines_field:
  "f \<in> set (scan_lines style prev ls) \<Longrightarrow> \<exists>p ty nm. f = field_of_line style p (ty, nm)"
proof (induction ls arbitrary: prev)
  case Nil
  then show ?case by simp
next
  case (Cons l ls)
  show ?case
  proof (cases "final_field_at (trim l)")
    case None
    with Cons.prems have "f \<in> set (scan_lines style (l # prev) ls)"
      by simp
    then show ?thesis
      by (rule Cons.IH)
  next
    case (Some m)
    with Cons.prems have "f = field_of_line style prev m \<or> f \<in> set (scan_lines style (l # prev) ls)"
      by simp
    then show ?thesis
    proof
      assume "f = field_of_line style prev m"
      then show ?thesis
        by (cases m) blast
    next
      assume "f \<in> set (scan_lines style (l # prev) ls)"
      then show ?thesis
        by (rule Cons.IH)
    qed
  qed
qed

lemma field_of_line_kind:
  "f = field_of_line style prev (ty, nm) \<Longrightarrow>
     type f = ty \<and> name f = nm
     \<and> isEnum f = includes_str (commentBlock_above prev) ''Type: enum''
     \<and> isClass f = (\<not> isEnum f \<and> replace_str ty ''?'' [] \<notin> set dartBuiltInTypes)"
  by (simp add: field_of_line_def Let_def)

lemma fields_of_lines_kind:
  assumes "f \<in> set (fields_of_lines style classBody)"
  shows "isClass f = (\<not> isEnum f \<and> replace_str (type f) ''?'' [] \<notin> set dartBuiltInTypes)"
proof -
  from assms obtain p ty nm where "f = field_of_line style p (ty, nm)"
    unfolding fields_of_lines_def using scan_lines_field by blast
  from field_of_line_kind [OF this] show ?thesis
    by simp
qed

lemma dot_plus_line: "dot_plus s = Some g \<Longrightarrow> CHR 0x0A \<notin> set g"
  by (auto simp: dot_plus_def Let_def is_line_terminator_def split: if_splits dest: set_takeWhileD)

lemma spaces_dot_plus_line: "spaces_dot_plus s = Some g \<Longrightarrow> CHR 0x0A \<notin> set g"
  by (induction s) (auto split: if_splits option.splits dest: dot_plus_line)

lemma commentMatch_line: "commentMatch nm s = Some g \<Longrightarrow> CHR 0x0A \<notin> set g"
proof (induction s)
  case Nil
  then show ?case by simp
next
  case (Cons c cs)
  then show ?case
    by (cases "comment_at nm (c # cs)")
      (auto simp: comment_at_def Let_def split: if_splits dest: spaces_dot_plus_line)
qed

lemma split_lines_single: "CHR 0x0A \<notin> set g \<Longrightarrow> split_lines g = [g]"
  by (induction g) auto

lemma read_directives_enum_only:
  assumes "commentMatch nm classCode = Some g" and "startsWith (trim g) ''Type: enum''"
  shows "read_directives nm classCode = (True, no_parsing)"
proof -
  from assms(1) have "split_lines g = [g]"
    by (intro split_lines_single commentMatch_line)
  with assms show ?thesis
    by (simp add: read_directives_def)
qed

lemma this_marker_at_iff:
  "this_marker_at nm s = (\<exists>c post. s = ''this'' @ c # nm @ post \<and> \<not> is_line_terminator c)"
proof
  assume a: "this_marker_at nm s"
  then have p: "prefix ''this'' s"
    by (simp add: this_marker_at_def)
  then have s: "s = ''this'' @ drop 4 s"
    by (rule prefix_drop) simp
  from a obtain c r where d: "drop 4 s = c # r" "\<not> is_line_terminator c" "prefix nm r"
    by (auto simp: this_marker_at_def split: list.splits)
  from d(3) obtain post where "r = nm @ post"
    by (auto simp: prefix_def)
  with s d show "\<exists>c post. s = ''this'' @ c # nm @ post \<and> \<not> is_line_terminator c"
    by metis
next
  assume "\<exists>c post. s = ''this'' @ c # nm @ post \<and> \<not> is_line_terminator c"
  then show "this_marker_at nm s"
    by (auto simp: this_marker_at_def)
qed

lemma required_marker_test_iff:
  "required_marker_test nm ps =
     (\<exists>pre c post. ps = pre @ ''this'' @ c # nm @ post \<and> \<not> is_line_terminator c)"
proof
  assume "required_marker_test nm ps"
  then show "\<exists>pre c post. ps = pre @ ''this'' @ c # nm @ post \<and> \<not> is_line_terminator c"
  proof (induction ps)
    case Nil
    then show ?case by simp
  next
    case (Cons x xs)
    from Cons.prems have "this_marker_at nm (x # xs)
      \<or> (prefix ''required'' (x # xs)
          \<and> this_marker_at nm (dropWhile (\<lambda>c. c = CHR ''s'') (drop 8 (x # xs))))
      \<or> required_marker_test nm xs"
      by (auto simp: required_marker_at_def)
    then show ?case
    proof (elim disjE conjE)
      assume "this_marker_at nm (x # xs)"
      then obtain c post where "x # xs = [] @ ''this'' @ c # nm @ post" "\<not> is_line_terminator c"
        unfolding this_marker_at_iff by auto
      then show ?thesis by blast
    next
      assume p: "prefix ''required'' (x # xs)"
        and t: "this_marker_at nm (dropWhile (\<lambda>c. c = CHR ''s'') (drop 8 (x # xs)))"
      from p have 1: "x # xs = ''required'' @ drop 8 (x # xs)"
        by (rule prefix_drop) simp
      have 2: "drop 8 (x # xs) = takeWhile (\<lambda>c. c = CHR ''s'') (drop 8 (x # xs))
                 @ dropWhile (\<lambda>c. c = CHR ''s'') (drop 8 (x # xs))"
        by simp
      from t obtain c post where 3: "dropWhile (\<lambda>c. c = CHR ''s'') (drop 8 (x # xs))
          = ''this'' @ c # nm @ post" and c: "\<not> is_line_terminator c"
        unfolding this_marker_at_iff by auto
      have "x # xs = (''required'' @ takeWhile (\<lambda>c. c = CHR ''s'') (drop 8 (x # xs)))
          @ ''this'' @ c # nm @ post"
        using 1 2 3 by (metis append_assoc)
      with c show ?thesis by blast
    next
      assume "required_marker_test nm xs"
      with Cons.IH obtain pre c post where "xs = pre @ ''this'' @ c # nm @ post"
        "\<not> is_line_terminator c"
        by blast
      then have "x # xs = (x # pre) @ ''this'' @ c # nm @ post"
        by simp
      with \<open>\<not> is_line_terminator c\<close> show ?thesis by blast
    qed
  qed
next
  assume "\<exists>pre c post. ps = pre @ ''this'' @ c # nm @ post \<and> \<not> is_line_terminator c"
  then obtain pre c post where ps: "ps = pre @ ''this'' @ c # nm @ post" and c: "\<not> is_line_terminator c"
    by blast
  have "required_marker_test nm (pre @ ''this'' @ c # nm @ post)"
  proof (induction pre)
    case Nil
    have "this_marker_at nm (''this'' @ c # nm @ post)"
      unfolding this_marker_at_iff using c by blast
    then show ?case
      by (simp add: required_marker_at_def)
  next
    case (Cons x pre)
    then show ?case by simp
  qed
  with ps show "required_marker_test nm ps" by simp
qed

lemma read_directives_trailing_enum:
  assumes cc: "classCode = pre @ nm @ ''; // Type: enum'' @ post"
    and first: "\<forall>k < length pre. \<not> prefix (nm @ '';'') (drop k classCode)"
  shows "read_directives nm classCode = (True, no_parsing)"
proof -
  from first have "\<forall>k < length pre. \<not> prefix (nm @ '';'') (drop k (pre @ nm @ ''; // Type: enum'' @ post))"
    by (simp add: cc)
  from commentMatch_enum [OF this]
  have cm: "commentMatch nm classCode
      = Some (''Type: enum'' @ takeWhile (\<lambda>c. \<not> is_line_terminator c) post)"
    by (simp add: cc)
  have "prefix ''Type: enum'' (trim (''Type: enum'' @ takeWhile (\<lambda>c. \<not> is_line_terminator c) post))"
    by (rule trim_keeps_prefix) (simp_all add: is_space_def)
  then have "startsWith (trim (''Type: enum'' @ takeWhile (\<lambda>c. \<not> is_line_terminator c) post)) ''Type: enum''"
    by (simp add: startsWith_def)
  with cm show ?thesis
    by (rule read_directives_enum_only)
qed

lemma no_directive_no_enum:
  assumes "\<not> includes_str classCode ''Type: enum''"
  shows "\<not> fst (read_directives nm classCode)"
proof
  assume "fst (read_directives nm classCode)"
  then obtain g where g: "commentMatch nm classCode = Some g"
    and l: "\<exists>l \<in> set (map trim (split_lines g)). startsWith l ''Type: enum''"
    unfolding read_directives_enum by blast
  from g have "split_lines g = [g]"
    by (intro split_lines_single commentMatch_line)
  with l have "prefix ''Type: enum'' (trim g)"
    by (simp add: startsWith_def)
  then obtain B where "trim g = [] @ ''Type: enum'' @ B"
    by (auto simp: prefix_def)
  then have "includes_str (trim g) ''Type: enum''"
    unfolding includes_str_iff by blast
  then have "includes_str g ''Type: enum''"
    by (rule includes_str_trim)
  moreover from g obtain A B where "classCode = A @ g @ B"
    using commentMatch_within by blast
  ultimately have "includes_str classCode ''Type: enum''"
    using includes_str_within by blast
  with assms show False
    by simp
qed

lemma no_directive_no_enum_above:
  assumes "\<not> includes_str classBody ''Type: enum''"
    and "split_lines classBody = ls1 @ d # ls2"
  shows "\<not> includes_str (commentBlock_above (rev ls1)) ''Type: enum''"
proof
  assume "includes_str (commentBlock_above (rev ls1)) ''Type: enum''"
  then have "\<exists>l \<in> set (takeWhile (\<lambda>l. startsWith (trim l) ''//'') (rev ls1)).
      includes_str l ''Type: enum''"
    by (rule commentBlock_above_lines) simp_all
  then obtain l where "l \<in> set (rev ls1)" and i: "includes_str l ''Type: enum''"
    by (meson set_takeWhileD)
  with assms(2) have "l \<in> set (split_lines classBody)"
    by simp
  then obtain A B where "classBody = A @ l @ B"
    using split_lines_within by blast
  with i have "includes_str classBody ''Type: enum''"
    using includes_str_within by blast
  with assms(1) show False
    by simp
qed

text \<open>
  The trailing comment is one line and is read as one directive: a field of the first or
  third revision that is enum-valued has no custom expressions.
\<close>

lemma read_directives_one_directive:
  "fst (read_directives nm classCode) \<Longrightarrow> snd (read_directives nm classCode) = no_parsing"
proof (cases "commentMatch nm classCode")
  case None
  then show "fst (read_directives nm classCode) \<Longrightarrow> snd (read_directives nm classCode) = no_parsing"
    by (simp add: read_directives_def)
next
  case (Some g)
  then have "split_lines g = [g]"
    by (intro split_lines_single commentMatch_line)
  with Some have "read_directives nm classCode = directive_step (False, no_parsing) (trim g)"
    by (simp add: read_directives_def)
  then show "fst (read_directives nm classCode) \<Longrightarrow> snd (read_directives nm classCode) = no_parsing"
    by (auto split: if_splits option.splits)
qed

lemma trailing_enum_field:
  assumes cc: "classCode = pre @ ''final Count count; // Type: enum'' @ post"
    and first: "\<forall>k < length pre + 12. \<not> prefix ''count;'' (drop k classCode)"
  shows "\<lparr>type = ''Count'', name = ''count'', snakeName = ''count'', nullable = False,
           isEnum = True, isClass = False, customParsing = no_parsing\<rparr>
         \<in> set (fields_of Original classCode)"
proof -
  have "(''Count'', ''count'') \<in> set (fieldMatches ((pre @ ''final '') @ ''Count count;'' @ ('' // Type: enum'' @ post)))"
    by (rule declaration_is_matched) simp
  then have m: "(''Count'', ''count'') \<in> set (fieldMatches classCode)"
    by (simp add: cc)
  have cc': "classCode = (pre @ ''final Count '') @ ''count'' @ ''; // Type: enum'' @ post"
    by (simp add: cc)
  have "\<forall>k < length (pre @ ''final Count ''). \<not> prefix (''count'' @ '';'') (drop k classCode)"
    using first by simp
  with cc' have rd: "read_directives ''count'' classCode = (True, no_parsing)"
    by (rule read_directives_trailing_enum)
  have "replace_str ''Count'' ''?'' [] \<notin> set dartBuiltInTypes" "\<not> suffix ''?'' ''Count''"
    by code_simp+
  with rd have "field_of_match Original classCode (''Count'', ''count'')
      = \<lparr>type = ''Count'', name = ''count'', snakeName = ''count'', nullable = False,
         isEnum = True, isClass = False, customParsing = no_parsing\<rparr>"
    by (simp add: field_of_match_def determineFieldType_def endsWith_def)
  with m show ?thesis
    unfolding fields_of_def by (metis image_eqI list.set_map)
qed

text \<open>
  The comment search is not anchored at the start of a name. In the class below the text
  \<^verbatim>\<open>count;\<close> first stands at the end of the declaration of \<^verbatim>\<open>account\<close>, whose comment is
  the one that is read for the field \<^verbatim>\<open>count\<close>: the directive of \<^verbatim>\<open>count\<close> is not seen.
  The properties below that speak of a trailing directive are stated for a text in which
  the name and its semicolon do not stand before the declaration.
\<close>

lemma comment_search_takes_first_place:
  "commentMatch ''count'' sample_enum_collision = Some ''x''
   \<and> map (\<lambda>f. (name f, isEnum f, isClass f)) (fields_of Original sample_enum_collision)
       = [(''account'', False, False), (''count'', False, True)]"
  by code_simp

lemma commentBlock_enum_line:
  assumes "trim c = ''// Type: enum''"
  shows "commentBlock_above (c # prev) = commentBlock_above prev @ ''Type: enum'' @ NL"
proof -
  have "trim (strip_slashes ''// Type: enum'') = ''Type: enum''"
    by code_simp
  with assms show ?thesis
    by (simp add: startsWith_def)
qed

lemma commentBlock_no_comment:
  "ls1 = [] \<or> \<not> startsWith (trim (last ls1)) ''//'' \<Longrightarrow> commentBlock_above (rev ls1) = []"
  by (cases ls1 rule: rev_cases) auto

lemma fields_of_lines_origin:
  assumes "f \<in> set (fields_of_lines style classBody)"
  shows "\<exists>ls1 d ls2. split_lines classBody = ls1 @ d # ls2
           \<and> final_field_at (trim d) = Some (type f, name f)
           \<and> f = field_of_line style (rev ls1) (type f, name f)"
proof -
  from assms obtain ls1 d ls2 m where o: "split_lines classBody = ls1 @ d # ls2"
    "final_field_at (trim d) = Some m" "f = field_of_line style (rev ls1 @ []) m"
    unfolding fields_of_lines_def using scan_lines_origin by blast
  obtain ty nm where m: "m = (ty, nm)"
    by (cases m) auto
  with o(3) have "type f = ty" "name f = nm"
    by (simp_all add: field_of_line_def Let_def)
  with o m show ?thesis
    by auto
qed

lemma enum_line_above:
  assumes ls: "split_lines classBody = ls1 @ c # d # ls2"
    and c: "trim c = ''// Type: enum''"
    and d: "final_field_at (trim d) = Some (ty, nm)"
  shows "field_of_line style (c # rev ls1) (ty, nm) \<in> set (fields_of_lines style classBody)"
    and "isEnum (field_of_line style (c # rev ls1) (ty, nm))"
    and "\<not> isClass (field_of_line style (c # rev ls1) (ty, nm))"
proof -
  from scan_lines_holds [OF d, of style "ls1 @ [c]" "[]" ls2] ls
  show "field_of_line style (c # rev ls1) (ty, nm) \<in> set (fields_of_lines style classBody)"
    by (simp add: fields_of_lines_def)
  have "includes_str (commentBlock_above (c # rev ls1)) ''Type: enum''"
    unfolding commentBlock_enum_line [OF c] includes_str_iff by blast
  then show "isEnum (field_of_line style (c # rev ls1) (ty, nm))"
    "\<not> isClass (field_of_line style (c # rev ls1) (ty, nm))"
    by (simp_all add: field_of_line_def Let_def)
qed

lemma enum_line_above_only:
  assumes ls: "split_lines classBody = ls1 @ c # d # ls2"
    and np: "\<forall>l \<in> set (takeWhile (\<lambda>l. startsWith (trim l) ''//'') (rev ls1)).
               \<not> includes_str l ''Parsing:''"
    and c: "trim c = ''// Type: enum''"
    and d: "final_field_at (trim d) = Some (ty, nm)"
  shows "\<lparr>type = ty, name = nm, snakeName = convertCase style nm, nullable = endsWith ty ''?'',
           isEnum = True, isClass = False, customParsing = no_parsing\<rparr>
         \<in> set (fields_of_lines style classBody)"
proof -
  define X where "X = commentBlock_above (rev ls1)"
  have b: "commentBlock_above (c # rev ls1) = X @ ''Type: enum'' @ NL"
    unfolding X_def by (rule commentBlock_enum_line [OF c])
  have nx: "\<not> includes_str X ''Parsing:''"
    using np commentBlock_above_lines [of "rev ls1" "''Parsing:''"] unfolding X_def by auto
  have nt: "\<not> includes_str (''Type: enum'' @ NL) ''Parsing:''"
    by code_simp
  have "\<not> includes_str (X @ ''Type: enum'' @ NL) ''Parsing:''"
  proof (cases "X = []")
    case True
    with nt show ?thesis
      by simp
  next
    case False
    then obtain Z where Z: "X = Z @ NL"
      using commentBlock_above_shape [of "rev ls1"] unfolding X_def by blast
    show ?thesis
    proof
      assume "includes_str (X @ ''Type: enum'' @ NL) ''Parsing:''"
      then have "includes_str (Z @ NL @ (''Type: enum'' @ NL)) ''Parsing:''"
        by (simp add: Z)
      then have "includes_str Z ''Parsing:'' \<or> includes_str (''Type: enum'' @ NL) ''Parsing:''"
        by (rule includes_across_newline) simp
      with nt have "includes_str Z ''Parsing:''"
        by blast
      then have "includes_str X ''Parsing:''"
        using includes_str_within [of X "[]" Z NL] Z by simp
      with nx show False
        by simp
    qed
  qed
  then have "parsingMatch (commentBlock_above (c # rev ls1)) = None"
    unfolding b using parsingMatch_needs_keyword by (cases "parsingMatch (X @ ''Type: enum'' @ NL)") auto
  moreover have "includes_str (commentBlock_above (c # rev ls1)) ''Type: enum''"
    unfolding b includes_str_iff by blast
  ultimately have "field_of_line style (c # rev ls1) (ty, nm)
      = \<lparr>type = ty, name = nm, snakeName = convertCase style nm, nullable = endsWith ty ''?'',
         isEnum = True, isClass = False, customParsing = no_parsing\<rparr>"
    by (simp add: field_of_line_def Let_def)
  with enum_line_above(1) [OF ls c d, of style] show ?thesis
    by simp
qed

lemma no_comment_above:
  assumes ls: "split_lines classBody = ls1 @ d # ls2"
    and top: "ls1 = [] \<or> \<not> startsWith (trim (last ls1)) ''//''"
    and d: "final_field_at (trim d) = Some (ty, nm)"
  shows "field_of_line style (rev ls1) (ty, nm) \<in> set (fields_of_lines style classBody)"
    and "\<not> isEnum (field_of_line style (rev ls1) (ty, nm))"
    and "isClass (field_of_line style (rev ls1) (ty, nm))
           = (replace_str ty ''?'' [] \<notin> set dartBuiltInTypes)"
proof -
  from scan_lines_holds [OF d, of style ls1 "[]" ls2] ls
  show "field_of_line style (rev ls1) (ty, nm) \<in> set (fields_of_lines style classBody)"
    by (simp add: fields_of_lines_def)
  have "\<not> includes_str [] ''Type: enum''"
    by code_simp
  then show "\<not> isEnum (field_of_line style (rev ls1) (ty, nm))"
    "isClass (field_of_line style (rev ls1) (ty, nm))
           = (replace_str ty ''?'' [] \<notin> set dartBuiltInTypes)"
    by (simp_all add: field_of_line_def Let_def commentBlock_no_comment [OF top])
qed

text \<open>
  Claim C9, as stated: the flags \<^verbatim>\<open>isEnum\<close> and \<^verbatim>\<open>isClass\<close> are never both true, and a
  built-in declared type gives both flags false whatever the directive says. The second
  part fails in the line-scanning revision: for the class below, whose field of type
  \<^verbatim>\<open>int\<close> has the directive \<^verbatim>\<open>Type: enum\<close> on the line above it, the field is enum-valued.
\<close>

theorem enum_directive_on_builtin_type:
  "map (\<lambda>m. map (\<lambda>f. (type f, isEnum f, isClass f)) (fields_of_lines Original (m_classBody m)))
     (classMatches 0 sample_enum_builtin_above) = [[(''int'', True, False)]]"
  by code_simp

text \<open>
  Claim C9, amended. In every revision the two flags of an extracted field are never both
  true.

  First and third revision (\<^verbatim>\<open>determineFieldType\<close>): a built-in type, its \<^verbatim>\<open>?\<close> removed,
  gives both flags false; any other type gives exactly one of the two flags. A text that
  holds no \<^verbatim>\<open>Type: enum\<close> gives no enum field. When the first place of the text where the field
  name is followed by a semicolon stands after white space (it is a declaration of that
  name, not the tail of a longer name) and is followed by \<^verbatim>\<open> // Type: enum\<close>, the field
  is enum-valued exactly when its type is outside the built-in set: the directive is
  ignored for a built-in type.

  Second revision (line scan): every extracted field comes from a line of the class body
  that matches the field pattern, and it is enum-valued exactly when the block of comment
  lines directly above that line holds \<^verbatim>\<open>Type: enum\<close>; a field that is not enum-valued is
  nested-class-valued exactly when its type is outside the built-in set. A body that
  holds no \<^verbatim>\<open>Type: enum\<close> gives no enum field. A declaration
  \<^verbatim>\<open>final <type> <name>;\<close> whose line above is \<^verbatim>\<open>// Type: enum\<close> gives an enum field
  whatever its type, built-in types included, and a declaration with no comment line above
  it gives a field that is not enum-valued.
\<close>

theorem field_kind_flags:
  "(f \<in> set (fields_of style classCode) \<longrightarrow>
      \<not> (isEnum f \<and> isClass f)
      \<and> (replace_str (type f) ''?'' [] \<in> set dartBuiltInTypes \<longrightarrow> \<not> isEnum f \<and> \<not> isClass f)
      \<and> (replace_str (type f) ''?'' [] \<notin> set dartBuiltInTypes \<longrightarrow> isClass f = (\<not> isEnum f))
      \<and> (\<not> includes_str classCode ''Type: enum'' \<longrightarrow> \<not> isEnum f)
      \<and> (classCode = pre @ name f @ ''; // Type: enum'' @ post
         \<and> pre \<noteq> [] \<and> is_space (last pre)
         \<and> (\<forall>k < length pre. \<not> prefix (name f @ '';'') (drop k classCode)) \<longrightarrow>
           isEnum f = (replace_str (type f) ''?'' [] \<notin> set dartBuiltInTypes)))
   \<and> (f \<in> set (fields_of_lines style classBody) \<longrightarrow>
      \<not> (isEnum f \<and> isClass f)
      \<and> (\<not> isEnum f \<longrightarrow> isClass f = (replace_str (type f) ''?'' [] \<notin> set dartBuiltInTypes))
      \<and> (\<not> includes_str classBody ''Type: enum'' \<longrightarrow> \<not> isEnum f)
      \<and> (\<exists>ls1 d ls2. split_lines classBody = ls1 @ d # ls2
            \<and> final_field_at (trim d) = Some (type f, name f)
            \<and> isEnum f = includes_str (commentBlock_above (rev ls1)) ''Type: enum''))
   \<and> (split_lines classBody = ls1 @ c # d # ls2 \<and> trim c = ''// Type: enum''
      \<and> trim d = ''final '' @ w @ q @ '' '' @ nm @ '';'' @ rest
      \<and> w \<noteq> [] \<and> list_all is_word w \<and> (q = [] \<or> q = ''?'') \<and> nm \<noteq> [] \<and> list_all is_word nm \<longrightarrow>
        (\<exists>g \<in> set (fields_of_lines style classBody).
            type g = w @ q \<and> name g = nm \<and> isEnum g \<and> \<not> isClass g))
   \<and> (split_lines classBody = ls1 @ d # ls2 \<and> (ls1 = [] \<or> \<not> startsWith (trim (last ls1)) ''//'')
      \<and> trim d = ''final '' @ w @ q @ '' '' @ nm @ '';'' @ rest
      \<and> w \<noteq> [] \<and> list_all is_word w \<and> (q = [] \<or> q = ''?'') \<and> nm \<noteq> [] \<and> list_all is_word nm \<longrightarrow>
        (\<exists>g \<in> set (fields_of_lines style classBody).
            type g = w @ q \<and> name g = nm \<and> \<not> isEnum g
            \<and> isClass g = (replace_str (w @ q) ''?'' [] \<notin> set dartBuiltInTypes)))"
proof (intro conjI impI)
  assume a: "f \<in> set (fields_of style classCode)"
  note k = fields_of_kind [OF a]
  from k show "\<not> (isEnum f \<and> isClass f)"
    by blast
  {
    assume "replace_str (type f) ''?'' [] \<in> set dartBuiltInTypes"
    with k show "\<not> isEnum f" "\<not> isClass f"
      by blast+
  }
  {
    assume "replace_str (type f) ''?'' [] \<notin> set dartBuiltInTypes"
    with k show "isClass f = (\<not> isEnum f)"
      by blast
  }
  {
    assume "\<not> includes_str classCode ''Type: enum''"
    then have "\<not> fst (read_directives (name f) classCode)"
      by (rule no_directive_no_enum)
    with k show "\<not> isEnum f"
      by auto
  }
  {
    assume "classCode = pre @ name f @ ''; // Type: enum'' @ post
         \<and> pre \<noteq> [] \<and> is_space (last pre)
         \<and> (\<forall>k < length pre. \<not> prefix (name f @ '';'') (drop k classCode))"
    then have "read_directives (name f) classCode = (True, no_parsing)"
      using read_directives_trailing_enum by blast
    with k show "isEnum f = (replace_str (type f) ''?'' [] \<notin> set dartBuiltInTypes)"
      by auto
  }
next
  assume b: "f \<in> set (fields_of_lines style classBody)"
  from fields_of_lines_kind [OF b] show "\<not> (isEnum f \<and> isClass f)"
    by blast
  {
    assume "\<not> isEnum f"
    with fields_of_lines_kind [OF b]
    show "isClass f = (replace_str (type f) ''?'' [] \<notin> set dartBuiltInTypes)"
      by blast
  }
  from fields_of_lines_origin [OF b] obtain ls1 d ls2 where
    o: "split_lines classBody = ls1 @ d # ls2" "final_field_at (trim d) = Some (type f, name f)"
      "f = field_of_line style (rev ls1) (type f, name f)"
    by blast
  from field_of_line_kind [OF o(3)]
  have e: "isEnum f = includes_str (commentBlock_above (rev ls1)) ''Type: enum''"
    by simp
  {
    assume "\<not> includes_str classBody ''Type: enum''"
    from no_directive_no_enum_above [OF this o(1)] e show "\<not> isEnum f"
      by simp
  }
  from e o show "\<exists>ls1 d ls2. split_lines classBody = ls1 @ d # ls2
            \<and> final_field_at (trim d) = Some (type f, name f)
            \<and> isEnum f = includes_str (commentBlock_above (rev ls1)) ''Type: enum''"
    by blast
next
  assume h: "split_lines classBody = ls1 @ c # d # ls2 \<and> trim c = ''// Type: enum''
      \<and> trim d = ''final '' @ w @ q @ '' '' @ nm @ '';'' @ rest
      \<and> w \<noteq> [] \<and> list_all is_word w \<and> (q = [] \<or> q = ''?'') \<and> nm \<noteq> [] \<and> list_all is_word nm"
  then have d: "final_field_at (trim d) = Some (w @ q, nm)"
    using final_field_at_typed [of w nm q rest] by simp
  from h have ls: "split_lines classBody = ls1 @ c # d # ls2" and c: "trim c = ''// Type: enum''"
    by simp_all
  define g where "g = field_of_line style (c # rev ls1) (w @ q, nm)"
  have "type g = w @ q" "name g = nm"
    by (simp_all add: g_def field_of_line_def Let_def)
  with enum_line_above [OF ls c d, of style]
  show "\<exists>g \<in> set (fields_of_lines style classBody).
            type g = w @ q \<and> name g = nm \<and> isEnum g \<and> \<not> isClass g"
    unfolding g_def [symmetric] by blast
next
  assume h: "split_lines classBody = ls1 @ d # ls2 \<and> (ls1 = [] \<or> \<not> startsWith (trim (last ls1)) ''//'')
      \<and> trim d = ''final '' @ w @ q @ '' '' @ nm @ '';'' @ rest
      \<and> w \<noteq> [] \<and> list_all is_word w \<and> (q = [] \<or> q = ''?'') \<and> nm \<noteq> [] \<and> list_all is_word nm"
  then have d: "final_field_at (trim d) = Some (w @ q, nm)"
    using final_field_at_typed [of w nm q rest] by simp
  from h have ls: "split_lines classBody = ls1 @ d # ls2"
    and top: "ls1 = [] \<or> \<not> startsWith (trim (last ls1)) ''//''"
    by simp_all
  define g where "g = field_of_line style (rev ls1) (w @ q, nm)"
  have "type g = w @ q" "name g = nm"
    by (simp_all add: g_def field_of_line_def Let_def)
  with no_comment_above [OF ls top d, of style]
  show "\<exists>g \<in> set (fields_of_lines style classBody).
            type g = w @ q \<and> name g = nm \<and> \<not> isEnum g
            \<and> isClass g = (replace_str (w @ q) ''?'' [] \<notin> set dartBuiltInTypes)"
    unfolding g_def [symmetric] by blast
qed

theorem field_kind_flags_witness:
  "sample_field_enum \<in> set (fields_of Original sample_enum_trailing)
   \<and> replace_str (type sample_field_enum) ''?'' [] \<notin> set dartBuiltInTypes
   \<and> sample_enum_trailing
       = (''class User {'' @ NL @ ''  final Count '') @ name sample_field_enum
         @ ''; // Type: enum'' @ (NL @ ''}'')
   \<and> is_space (last (''class User {'' @ NL @ ''  final Count ''))
   \<and> isEnum sample_field_enum \<and> \<not> isClass sample_field_enum
   \<and> sample_field_int \<in> set (fields_of Original sample_enum_builtin_trailing)
   \<and> replace_str (type sample_field_int) ''?'' [] \<in> set dartBuiltInTypes
   \<and> sample_enum_builtin_trailing
       = (''class A {'' @ NL @ ''  final int '') @ name sample_field_int
         @ ''; // Type: enum'' @ (NL @ ''}'')
   \<and> is_space (last (''class A {'' @ NL @ ''  final int ''))
   \<and> \<not> isEnum sample_field_int \<and> \<not> isClass sample_field_int
   \<and> map m_classBody (classMatches 0 sample_enum_builtin_above) = [sample_enum_builtin_body]
   \<and> split_lines sample_enum_builtin_body = [[]] @ ''  // Type: enum'' # ''  final int count;'' # [[]]
   \<and> trim ''  // Type: enum'' = ''// Type: enum''
   \<and> trim ''  final int count;'' = ''final '' @ ''int'' @ [] @ '' '' @ ''count'' @ '';'' @ []
   \<and> list_all is_word ''int'' \<and> list_all is_word ''count''
   \<and> (\<exists>g \<in> set (fields_of_lines Original sample_enum_builtin_body).
         type g = ''int'' \<and> name g = ''count'' \<and> isEnum g \<and> \<not> isClass g)
   \<and> map m_classBody (classMatches 0 sample_nullable_nested) = [sample_nullable_nested_body]
   \<and> split_lines sample_nullable_nested_body = [[]] @ ''  final SubType? subType;'' # [[]]
   \<and> \<not> startsWith (trim (last [[]])) ''//''
   \<and> trim ''  final SubType? subType;'' = ''final '' @ ''SubType'' @ ''?'' @ '' '' @ ''subType'' @ '';'' @ []
   \<and> list_all is_word ''SubType'' \<and> list_all is_word ''subType''
   \<and> replace_str (''SubType'' @ ''?'') ''?'' [] \<notin> set dartBuiltInTypes
   \<and> (\<exists>g \<in> set (fields_of_lines Original sample_nullable_nested_body).
         type g = ''SubType?'' \<and> name g = ''subType'' \<and> \<not> isEnum g \<and> isClass g)"
proof -
  have a: "sample_field_enum \<in> set (fields_of Original sample_enum_trailing)"
    "replace_str (type sample_field_enum) ''?'' [] \<notin> set dartBuiltInTypes"
    "sample_enum_trailing
       = (''class User {'' @ NL @ ''  final Count '') @ name sample_field_enum
         @ ''; // Type: enum'' @ (NL @ ''}'')"
    "is_space (last (''class User {'' @ NL @ ''  final Count ''))"
    "\<forall>k < length (''class User {'' @ NL @ ''  final Count '').
         \<not> prefix (name sample_field_enum @ '';'') (drop k sample_enum_trailing)"
    by code_simp+
  have b: "sample_field_int \<in> set (fields_of Original sample_enum_builtin_trailing)"
    "replace_str (type sample_field_int) ''?'' [] \<in> set dartBuiltInTypes"
    "sample_enum_builtin_trailing
       = (''class A {'' @ NL @ ''  final int '') @ name sample_field_int
         @ ''; // Type: enum'' @ (NL @ ''}'')"
    "is_space (last (''class A {'' @ NL @ ''  final int ''))"
    "\<forall>k < length (''class A {'' @ NL @ ''  final int '').
         \<not> prefix (name sample_field_int @ '';'') (drop k sample_enum_builtin_trailing)"
    by code_simp+
  have c: "map m_classBody (classMatches 0 sample_enum_builtin_above) = [sample_enum_builtin_body]"
    "split_lines sample_enum_builtin_body = [[]] @ ''  // Type: enum'' # ''  final int count;'' # [[]]"
    "trim ''  // Type: enum'' = ''// Type: enum''"
    "trim ''  final int count;'' = ''final '' @ ''int'' @ [] @ '' '' @ ''count'' @ '';'' @ []"
    "list_all is_word ''int''" "list_all is_word ''count''"
    by code_simp+
  have d: "map m_classBody (classMatches 0 sample_nullable_nested) = [sample_nullable_nested_body]"
    "split_lines sample_nullable_nested_body = [[]] @ ''  final SubType? subType;'' # [[]]"
    "\<not> startsWith (trim (last [[]])) ''//''"
    "trim ''  final SubType? subType;'' = ''final '' @ ''SubType'' @ ''?'' @ '' '' @ ''subType'' @ '';'' @ []"
    "list_all is_word ''SubType''" "list_all is_word ''subType''"
    "replace_str (''SubType'' @ ''?'') ''?'' [] \<notin> set dartBuiltInTypes"
    by code_simp+
  have 1: "isEnum sample_field_enum \<and> \<not> isClass sample_field_enum"
    using a
      field_kind_flags [of sample_field_enum Original sample_enum_trailing
        "''class User {'' @ NL @ ''  final Count ''" "NL @ ''}''" "[]" "[]" "[]" "[]" "[]" "[]" "[]" "[]" "[]"]
    by blast
  have 2: "\<not> isEnum sample_field_int \<and> \<not> isClass sample_field_int"
    using b
      field_kind_flags [of sample_field_int Original sample_enum_builtin_trailing
        "''class A {'' @ NL @ ''  final int ''" "NL @ ''}''" "[]" "[]" "[]" "[]" "[]" "[]" "[]" "[]" "[]"]
    by blast
  have 3: "\<exists>g \<in> set (fields_of_lines Original sample_enum_builtin_body).
         type g = ''int'' \<and> name g = ''count'' \<and> isEnum g \<and> \<not> isClass g"
    using c
      field_kind_flags [of sample_field_int Original "[]" "[]" "[]" sample_enum_builtin_body
        "[[]]" "''  // Type: enum''" "''  final int count;''" "[[]]" "''int''" "[]" "''count''" "[]"]
    by simp
  have 4: "\<exists>g \<in> set (fields_of_lines Original sample_nullable_nested_body).
         type g = ''SubType?'' \<and> name g = ''subType'' \<and> \<not> isEnum g \<and> isClass g"
    using d
      field_kind_flags [of sample_field_int Original "[]" "[]" "[]" sample_nullable_nested_body
        "[[]]" "[]" "''  final SubType? subType;''" "[[]]" "''SubType''" "''?''" "''subType''" "[]"]
    by simp
  show ?thesis
    using a b c d 1 2 3 4 by blast
qed

text \<open>
  The constructor search of the fourth revision looks for the character U+0008 followed
  by the class name: its pattern is built in a template literal, where \<^verbatim>\<open>\b\<close> is that
  character. In a text that does not hold the character the search finds nothing, and the
  nullability of every field stays the one of its type marker.
\<close>

lemma constructor_search_needs_backspace:
  "CHR 0x08 \<notin> set classCode \<Longrightarrow> constructorParams cn classCode = None"
proof (cases "find_sub (CHR 0x08 # cn) classCode")
  case None
  then show ?thesis
    by (simp add: constructorParams_def)
next
  case (Some m)
  assume n: "CHR 0x08 \<notin> set classCode"
  from Some obtain b a where "find_sub (CHR 0x08 # cn) classCode = Some (b, a)"
    by (cases m) auto
  then have "set (CHR 0x08 # cn) \<subseteq> set classCode"
    by (rule find_sub_chars)
  with n show ?thesis
    by simp
qed

lemma type_marker_decides:
  "CHR 0x08 \<notin> set classCode \<Longrightarrow>
     map nullable (fields_v4 style cn classCode)
       = map (\<lambda>(ty, nm). endsWith ty ''?'') (fieldMatches classCode)"
  by (simp add: fields_v4_def Let_def constructor_search_needs_backspace plain_field_of_match_def
      split_def)

text \<open>
  Claim C2. In the fourth revision, when the text holds a constructor parameter list for
  the class, a field is to be nullable exactly when \<^verbatim>\<open>required this.<field>\<close> is absent
  from the list, whatever the type marker says. The code means to do this (its comments
  read \<^emph>\<open>extract the constructor parameters to determine required fields\<close>) and does
  not, as the search never finds the list of ordinary Dart text.

  The class below is ordinary Dart text. Its constructor names \<^verbatim>\<open>required this.name\<close>,
  so the field \<^verbatim>\<open>name\<close> is to be non-nullable and its constructor entry
  \<^verbatim>\<open>required this.name,\<close>. The run finds no parameter list, keeps the field nullable as
  its type \<^verbatim>\<open>String?\<close> says, and writes \<^verbatim>\<open>this.name,\<close>. (Had the list been found, the
  field \<^verbatim>\<open>age\<close> would be made non-nullable as well, since the marker that is tested is
  \<^verbatim>\<open>this.age\<close> with an optional \<^verbatim>\<open>required\<close> before it.)
\<close>

theorem required_marker_not_read:
  "CHR 0x08 \<notin> set sample_ctor_required
   \<and> classNameMatch sample_ctor_required = Some ''User''
   \<and> includes_str sample_ctor_required ''User({required this.name, this.age})''
   \<and> constructorParams ''User'' sample_ctor_required = None
   \<and> map (\<lambda>f. (type f, name f, nullable f)) (fields_v4 Original ''User'' sample_ctor_required)
       = [(''String?'', ''name'', True), (''int?'', ''age'', True)]
   \<and> generateConstructor ''UserDTO'' (fields_v4 Original ''User'' sample_ctor_required)
       = NL @ ''  const UserDTO({'' @ NL @ ''    this.name,'' @ NL @ ''    this.age,'' @ NL
         @ ''  });'' @ NL @ ''  ''
   \<and> required_marker_test ''age'' ''{required this.name, this.age}''"
  by code_simp

section \<open>Properties of the Code Synthesizer\<close>

lemma empty_custom_expression_is_passed_over:
  "fromJson (customParsing f) = Some [] \<Longrightarrow> isEnum f \<Longrightarrow>
     fromMap_entry f = name f @ '': '' @ name f @ ''FromString('' @ map_access f @ ''),''"
  by (simp add: fromMap_entry_def)

text \<open>
  Claim C1. The text of the \<^verbatim>\<open>fromMap\<close> factory is the fixed frame around one entry per
  field, in the order of the fields, and the entry of a field is its name, a colon and
  the decode expression, which is chosen in a fixed order: a custom \<^verbatim>\<open>fromExpr\<close> that is
  present (set and not empty, which is what the source tests) is used, with the map access
  put in, also for an enum field; otherwise an enum field gets the call
  \<^verbatim>\<open><name>FromString\<close>; otherwise a nested-class field gets the \<^verbatim>\<open>fromMap\<close> call of its
  type behind a null check of the external key; otherwise the plain lookup. The text of
  \<^verbatim>\<open>toMap\<close> is built the same way from the encode expression: custom \<^verbatim>\<open>toExpr\<close>,
  \<^verbatim>\<open><name>ToString\<close>, \<^verbatim>\<open>?.toMap()\<close>, plain field. This holds for the three revisions that
  know directives; the second one writes the nested type without its \<^verbatim>\<open>?\<close>.
\<close>

theorem decode_encode_priority:
  "(let access = (\<lambda>f::field. ''map['' @ APOS @ snakeName f @ APOS @ '']'');
        decode = (\<lambda>nested f.
          if truthy (fromJson (customParsing f))
          then replace_str (the (fromJson (customParsing f))) ''value'' (access f)
          else if isEnum f then name f @ ''FromString('' @ access f @ '')''
          else if isClass f
          then access f @ '' != null ? '' @ nested f @ ''.fromMap('' @ access f @ '') : null''
          else access f);
        encode = (\<lambda>f.
          if truthy (toJson (customParsing f))
          then replace_str (the (toJson (customParsing f))) ''value'' (name f)
          else if isEnum f then name f @ ''ToString('' @ name f @ '')''
          else if isClass f then name f @ ''?.toMap()''
          else name f);
        decoded = (\<lambda>nested. join (NL @ ''    '')
                     (map (\<lambda>f. name f @ '': '' @ decode nested f @ '','') fs));
        encoded = join (NL @ ''    '')
                     (map (\<lambda>f. APOS @ snakeName f @ APOS @ '': '' @ encode f @ '','') fs)
    in generateFactoryMethods_v1 dtoClassName fs
         = ''factory '' @ dtoClassName @ ''.fromMap(Map<String, dynamic> map) => ''
           @ dtoClassName @ ''('' @ NL @ ''    '' @ decoded type
           @ NL @ ''      );'' @ NL @ NL @ ''  factory '' @ dtoClassName
           @ ''.fromJson(String source) =>'' @ NL @ ''      '' @ dtoClassName
           @ ''.fromMap(json.decode(source));'' @ NL @ ''  ''
       \<and> generateFactoryMethods_v2 dtoClassName fs
         = ''factory '' @ dtoClassName @ ''.fromMap(Map<String, dynamic> map) => ''
           @ dtoClassName @ ''('' @ NL @ ''    '' @ decoded (\<lambda>f. replace_str (type f) ''?'' [])
           @ NL @ ''  );'' @ NL @ NL @ ''  factory '' @ dtoClassName
           @ ''.fromJson(String source) =>'' @ NL @ ''      '' @ dtoClassName
           @ ''.fromMap(json.decode(source));''
       \<and> generateFactoryMethods_v3 dtoClassName fs
         = NL @ ''  factory '' @ dtoClassName @ ''.fromMap(Map<String, dynamic> map) => ''
           @ dtoClassName @ ''('' @ NL @ ''    '' @ decoded type
           @ NL @ ''  );'' @ NL @ NL @ ''  factory '' @ dtoClassName
           @ ''.fromJson(String source) =>'' @ NL @ ''      '' @ dtoClassName
           @ ''.fromMap(json.decode(source));'' @ NL @ ''  ''
       \<and> generateToMapAndJson_v1 fs
         = ''Map<String, dynamic> toMap() => {'' @ NL @ ''    '' @ encoded
           @ NL @ ''  };'' @ NL @ NL @ ''  String toJson() => json.encode(toMap());''
       \<and> generateToMapAndJson_v2 fs
         = ''Map<String, dynamic> toMap() => {'' @ NL @ ''    '' @ encoded
           @ NL @ ''  };'' @ NL @ NL @ ''  String toJson() => json.encode(toMap());''
       \<and> generateToMapAndJson_v3 fs
         = NL @ ''  Map<String, dynamic> toMap() => {'' @ NL @ ''    '' @ encoded
           @ NL @ ''  };'' @ NL @ NL @ ''  String toJson() => json.encode(toMap());'' @ NL @ ''  '')"
proof -
  have 1: "fromMap_entry = (\<lambda>f. name f @ '': ''
      @ (if truthy (fromJson (customParsing f))
         then replace_str (the (fromJson (customParsing f))) ''value'' (''map['' @ APOS @ snakeName f @ APOS @ '']'')
         else if isEnum f then name f @ ''FromString('' @ (''map['' @ APOS @ snakeName f @ APOS @ '']'') @ '')''
         else if isClass f
         then (''map['' @ APOS @ snakeName f @ APOS @ '']'') @ '' != null ? '' @ type f @ ''.fromMap(''
              @ (''map['' @ APOS @ snakeName f @ APOS @ '']'') @ '') : null''
         else ''map['' @ APOS @ snakeName f @ APOS @ '']'') @ '','')"
    by (rule ext) (simp add: fromMap_entry_def map_access_def)
  have 2: "fromMap_entry_v2 = (\<lambda>f. name f @ '': ''
      @ (if truthy (fromJson (customParsing f))
         then replace_str (the (fromJson (customParsing f))) ''value'' (''map['' @ APOS @ snakeName f @ APOS @ '']'')
         else if isEnum f then name f @ ''FromString('' @ (''map['' @ APOS @ snakeName f @ APOS @ '']'') @ '')''
         else if isClass f
         then (''map['' @ APOS @ snakeName f @ APOS @ '']'') @ '' != null ? ''
              @ replace_str (type f) ''?'' [] @ ''.fromMap(''
              @ (''map['' @ APOS @ snakeName f @ APOS @ '']'') @ '') : null''
         else ''map['' @ APOS @ snakeName f @ APOS @ '']'') @ '','')"
    by (rule ext) (simp add: fromMap_entry_v2_def map_access_def Let_def)
  have 3: "toMap_entry = (\<lambda>f. APOS @ snakeName f @ APOS @ '': ''
      @ (if truthy (toJson (customParsing f))
         then replace_str (the (toJson (customParsing f))) ''value'' (name f)
         else if isEnum f then name f @ ''ToString('' @ name f @ '')''
         else if isClass f then name f @ ''?.toMap()''
         else name f) @ '','')"
    by (rule ext) (simp add: toMap_entry_def)
  show ?thesis
    unfolding Let_def generateFactoryMethods_v1_def generateFactoryMethods_v2_def
      generateFactoryMethods_v3_def generateToMapAndJson_v1_def generateToMapAndJson_v2_def
      generateToMapAndJson_v3_def 1 2 3
    by simp
qed

text \<open>
  In the class below the field \<^verbatim>\<open>count\<close> carries both directives in the comment lines
  above it, \<^verbatim>\<open>mode\<close> the enum directive only, \<^verbatim>\<open>subType\<close> is of a type outside the
  built-in set and \<^verbatim>\<open>name\<close> of a built-in type. (Only the second revision can give a
  field both directives: the first and the third read one directive from the one line of
  the trailing comment, see \<open>read_directives_one_directive\<close>.)
\<close>

theorem decode_encode_priority_witness:
  "map m_classBody (classMatches 0 sample_directives_above) = [sample_directives_body]
   \<and> map (\<lambda>f. (name f, truthy (fromJson (customParsing f)), isEnum f, isClass f))
         (fields_of_lines Original sample_directives_body)
       = [(''count'', True, True, False), (''mode'', False, True, False),
          (''subType'', False, False, True), (''name'', False, False, False)]
   \<and> generateFactoryMethods_v2 ''UserDTO'' (fields_of_lines Original sample_directives_body)
       = ''factory UserDTO.fromMap(Map<String, dynamic> map) => UserDTO('' @ NL
         @ ''    count: Count.fromString(map['count']),'' @ NL
         @ ''    mode: modeFromString(map['mode']),'' @ NL
         @ ''    subType: map['subType'] != null ? SubType.fromMap(map['subType']) : null,'' @ NL
         @ ''    name: map['name'],'' @ NL
         @ ''  );'' @ NL @ NL
         @ ''  factory UserDTO.fromJson(String source) =>'' @ NL
         @ ''      UserDTO.fromMap(json.decode(source));''
   \<and> generateToMapAndJson_v2 (fields_of_lines Original sample_directives_body)
       = ''Map<String, dynamic> toMap() => {'' @ NL
         @ ''    '' @ APOS @ ''count'' @ APOS @ '': Count.serialize(count),'' @ NL
         @ ''    '' @ APOS @ ''mode'' @ APOS @ '': modeToString(mode),'' @ NL
         @ ''    '' @ APOS @ ''subType'' @ APOS @ '': subType?.toMap(),'' @ NL
         @ ''    '' @ APOS @ ''name'' @ APOS @ '': name,'' @ NL
         @ ''  };'' @ NL @ NL
         @ ''  String toJson() => json.encode(toMap());''"
proof -
  note t = decode_encode_priority [where dtoClassName = "''UserDTO''"
      and fs = "fields_of_lines Original sample_directives_body", unfolded Let_def]
  have a: "map m_classBody (classMatches 0 sample_directives_above) = [sample_directives_body]"
    "map (\<lambda>f. (name f, truthy (fromJson (customParsing f)), isEnum f, isClass f))
         (fields_of_lines Original sample_directives_body)
       = [(''count'', True, True, False), (''mode'', False, True, False),
          (''subType'', False, False, True), (''name'', False, False, False)]"
    by code_simp+
  have b: "generateFactoryMethods_v2 ''UserDTO'' (fields_of_lines Original sample_directives_body)
       = ''factory UserDTO.fromMap(Map<String, dynamic> map) => UserDTO('' @ NL
         @ ''    count: Count.fromString(map['count']),'' @ NL
         @ ''    mode: modeFromString(map['mode']),'' @ NL
         @ ''    subType: map['subType'] != null ? SubType.fromMap(map['subType']) : null,'' @ NL
         @ ''    name: map['name'],'' @ NL
         @ ''  );'' @ NL @ NL
         @ ''  factory UserDTO.fromJson(String source) =>'' @ NL
         @ ''      UserDTO.fromMap(json.decode(source));''"
    by (subst t [THEN conjunct2, THEN conjunct1]) code_simp
  have c: "generateToMapAndJson_v2 (fields_of_lines Original sample_directives_body)
       = ''Map<String, dynamic> toMap() => {'' @ NL
         @ ''    '' @ APOS @ ''count'' @ APOS @ '': Count.serialize(count),'' @ NL
         @ ''    '' @ APOS @ ''mode'' @ APOS @ '': modeToString(mode),'' @ NL
         @ ''    '' @ APOS @ ''subType'' @ APOS @ '': subType?.toMap(),'' @ NL
         @ ''    '' @ APOS @ ''name'' @ APOS @ '': name,'' @ NL
         @ ''  };'' @ NL @ NL
         @ ''  String toJson() => json.encode(toMap());''"
    by (subst t [THEN conjunct2, THEN conjunct2, THEN conjunct2, THEN conjunct2, THEN conjunct1])
      code_simp
  show ?thesis
    using a b c by blast
qed

lemma first_value_in_entry:
  assumes "f \<in> set (fields_of style classCode) \<or> f \<in> set (fields_of_lines style classBody)"
  shows "fromJson (customParsing f) = Some e \<Longrightarrow> find_sub ''value'' e = Some (pre, post) \<Longrightarrow>
      fromMap_entry f = name f @ '': '' @ pre @ ''map['' @ APOS @ snakeName f @ APOS @ '']'' @ post @ '',''
      \<and> fromMap_entry_v2 f = name f @ '': '' @ pre @ ''map['' @ APOS @ snakeName f @ APOS @ '']'' @ post @ '',''"
    and "toJson (customParsing f) = Some e' \<Longrightarrow> find_sub ''value'' e' = Some (pre', post') \<Longrightarrow>
      toMap_entry f = APOS @ snakeName f @ APOS @ '': '' @ pre' @ name f @ post' @ '',''"
proof -
  from assms have w: "list_all is_word (name f)" and s: "snakeName f = convertCase style (name f)"
    using fields_of_names fields_of_lines_names by blast+
  from w have n: "CHR ''$'' \<notin> set (name f)"
    by (rule words_no_dollar)
  with s have "CHR ''$'' \<notin> set (snakeName f)"
    by (simp add: convertCase_dollar)
  then have m: "CHR ''$'' \<notin> set (map_access f)"
    by (simp add: map_access_def)
  {
    assume a: "fromJson (customParsing f) = Some e" "find_sub ''value'' e = Some (pre, post)"
    from a(2) have "e = pre @ ''value'' @ post"
      by (rule find_sub_Some)
    then have "e \<noteq> []"
      by simp
    with a m have "fromMap_entry f = name f @ '': '' @ pre @ map_access f @ post @ '',''
      \<and> fromMap_entry_v2 f = name f @ '': '' @ pre @ map_access f @ post @ '',''"
      by (simp add: fromMap_entry_def fromMap_entry_v2_def replace_str_first)
    then show "fromMap_entry f = name f @ '': '' @ pre @ ''map['' @ APOS @ snakeName f @ APOS @ '']'' @ post @ '',''
      \<and> fromMap_entry_v2 f = name f @ '': '' @ pre @ ''map['' @ APOS @ snakeName f @ APOS @ '']'' @ post @ '',''"
      by (simp add: map_access_def)
  }
  {
    assume a: "toJson (customParsing f) = Some e'" "find_sub ''value'' e' = Some (pre', post')"
    from a(2) have "e' = pre' @ ''value'' @ post'"
      by (rule find_sub_Some)
    then have "e' \<noteq> []"
      by simp
    with a n show "toMap_entry f = APOS @ snakeName f @ APOS @ '': '' @ pre' @ name f @ post' @ '',''"
      by (simp add: toMap_entry_def replace_str_first)
  }
qed

text \<open>
  Claim C10. Let \<open>fs\<close> be the fields that an extractor builds (their names are made of word
  characters, so the replacement text holds no \<^verbatim>\<open>$\<close> pattern), and let the \<^verbatim>\<open>fromExpr\<close> of
  the \<open>i\<close>-th field hold the token \<^verbatim>\<open>value\<close>, with \<open>pre\<close> the text before its first
  occurrence and \<open>post\<close> the text after it. Then no \<^verbatim>\<open>value\<close> starts inside \<open>pre\<close>, and the
  emitted \<^verbatim>\<open>fromMap\<close> factory is the frame around the entries of the fields, where the
  \<open>i\<close>-th entry is the field name, a colon, \<open>pre\<close>, the map access and \<open>post\<close> as it is: a
  later \<^verbatim>\<open>value\<close> stays. The same holds for \<^verbatim>\<open>toExpr\<close>, the field name and the emitted
  \<^verbatim>\<open>toMap\<close>.
\<close>

theorem only_first_value_replaced:
  "(fs = fields_of style classCode \<or> fs = fields_of_lines style classBody) \<and> i < length fs \<longrightarrow>
   (fromJson (customParsing (fs ! i)) = Some e \<and> find_sub ''value'' e = Some (pre, post) \<longrightarrow>
      e = pre @ ''value'' @ post \<and> (\<forall>k < length pre. \<not> prefix ''value'' (drop k e))
      \<and> generateFactoryMethods_v1 dtoClassName fs
        = ''factory '' @ dtoClassName @ ''.fromMap(Map<String, dynamic> map) => ''
          @ dtoClassName @ ''('' @ NL @ ''    ''
          @ join (NL @ ''    '') ((map fromMap_entry fs)
              [i := name (fs ! i) @ '': '' @ pre @ ''map['' @ APOS @ snakeName (fs ! i) @ APOS @ '']''
                    @ post @ '',''])
          @ NL @ ''      );'' @ NL @ NL @ ''  factory '' @ dtoClassName
          @ ''.fromJson(String source) =>'' @ NL @ ''      '' @ dtoClassName
          @ ''.fromMap(json.decode(source));'' @ NL @ ''  ''
      \<and> generateFactoryMethods_v2 dtoClassName fs
        = ''factory '' @ dtoClassName @ ''.fromMap(Map<String, dynamic> map) => ''
          @ dtoClassName @ ''('' @ NL @ ''    ''
          @ join (NL @ ''    '') ((map fromMap_entry_v2 fs)
              [i := name (fs ! i) @ '': '' @ pre @ ''map['' @ APOS @ snakeName (fs ! i) @ APOS @ '']''
                    @ post @ '',''])
          @ NL @ ''  );'' @ NL @ NL @ ''  factory '' @ dtoClassName
          @ ''.fromJson(String source) =>'' @ NL @ ''      '' @ dtoClassName
          @ ''.fromMap(json.decode(source));''
      \<and> generateFactoryMethods_v3 dtoClassName fs
        = NL @ ''  factory '' @ dtoClassName @ ''.fromMap(Map<String, dynamic> map) => ''
          @ dtoClassName @ ''('' @ NL @ ''    ''
          @ join (NL @ ''    '') ((map fromMap_entry fs)
              [i := name (fs ! i) @ '': '' @ pre @ ''map['' @ APOS @ snakeName (fs ! i) @ APOS @ '']''
                    @ post @ '',''])
          @ NL @ ''  );'' @ NL @ NL @ ''  factory '' @ dtoClassName
          @ ''.fromJson(String source) =>'' @ NL @ ''      '' @ dtoClassName
          @ ''.fromMap(json.decode(source));'' @ NL @ ''  '')
   \<and> (toJson (customParsing (fs ! i)) = Some e' \<and> find_sub ''value'' e' = Some (pre', post') \<longrightarrow>
      e' = pre' @ ''value'' @ post' \<and> (\<forall>k < length pre'. \<not> prefix ''value'' (drop k e'))
      \<and> generateToMapAndJson_v1 fs
        = ''Map<String, dynamic> toMap() => {'' @ NL @ ''    ''
          @ join (NL @ ''    '') ((map toMap_entry fs)
              [i := APOS @ snakeName (fs ! i) @ APOS @ '': '' @ pre' @ name (fs ! i) @ post' @ '',''])
          @ NL @ ''  };'' @ NL @ NL @ ''  String toJson() => json.encode(toMap());''
      \<and> generateToMapAndJson_v2 fs
        = ''Map<String, dynamic> toMap() => {'' @ NL @ ''    ''
          @ join (NL @ ''    '') ((map toMap_entry fs)
              [i := APOS @ snakeName (fs ! i) @ APOS @ '': '' @ pre' @ name (fs ! i) @ post' @ '',''])
          @ NL @ ''  };'' @ NL @ NL @ ''  String toJson() => json.encode(toMap());''
      \<and> generateToMapAndJson_v3 fs
        = NL @ ''  Map<String, dynamic> toMap() => {'' @ NL @ ''    ''
          @ join (NL @ ''    '') ((map toMap_entry fs)
              [i := APOS @ snakeName (fs ! i) @ APOS @ '': '' @ pre' @ name (fs ! i) @ post' @ '',''])
          @ NL @ ''  };'' @ NL @ NL @ ''  String toJson() => json.encode(toMap());'' @ NL @ ''  '')"
proof (intro impI conjI; elim conjE)
  assume fs: "fs = fields_of style classCode \<or> fs = fields_of_lines style classBody"
    and i: "i < length fs"
  then have mem: "fs ! i \<in> set (fields_of style classCode) \<or> fs ! i \<in> set (fields_of_lines style classBody)"
    using nth_mem by blast
  {
    assume a: "fromJson (customParsing (fs ! i)) = Some e" "find_sub ''value'' e = Some (pre, post)"
    from a(2) show "e = pre @ ''value'' @ post"
      by (rule find_sub_Some)
    from a(2) show "\<forall>k < length pre. \<not> prefix ''value'' (drop k e)"
      using find_sub_first by blast
    note en = first_value_in_entry(1) [OF mem a]
    from en have 1: "(map fromMap_entry fs)
        [i := name (fs ! i) @ '': '' @ pre @ ''map['' @ APOS @ snakeName (fs ! i) @ APOS @ '']''
              @ post @ '',''] = map fromMap_entry fs"
      using i by (intro map_update_same) simp_all
    from en have 2: "(map fromMap_entry_v2 fs)
        [i := name (fs ! i) @ '': '' @ pre @ ''map['' @ APOS @ snakeName (fs ! i) @ APOS @ '']''
              @ post @ '',''] = map fromMap_entry_v2 fs"
      using i by (intro map_update_same) simp_all
    show "generateFactoryMethods_v1 dtoClassName fs
        = ''factory '' @ dtoClassName @ ''.fromMap(Map<String, dynamic> map) => ''
          @ dtoClassName @ ''('' @ NL @ ''    ''
          @ join (NL @ ''    '') ((map fromMap_entry fs)
              [i := name (fs ! i) @ '': '' @ pre @ ''map['' @ APOS @ snakeName (fs ! i) @ APOS @ '']''
                    @ post @ '',''])
          @ NL @ ''      );'' @ NL @ NL @ ''  factory '' @ dtoClassName
          @ ''.fromJson(String source) =>'' @ NL @ ''      '' @ dtoClassName
          @ ''.fromMap(json.decode(source));'' @ NL @ ''  ''"
      unfolding 1 by (simp add: generateFactoryMethods_v1_def)
    show "generateFactoryMethods_v2 dtoClassName fs
        = ''factory '' @ dtoClassName @ ''.fromMap(Map<String, dynamic> map) => ''
          @ dtoClassName @ ''('' @ NL @ ''    ''
          @ join (NL @ ''    '') ((map fromMap_entry_v2 fs)
              [i := name (fs ! i) @ '': '' @ pre @ ''map['' @ APOS @ snakeName (fs ! i) @ APOS @ '']''
                    @ post @ '',''])
          @ NL @ ''  );'' @ NL @ NL @ ''  factory '' @ dtoClassName
          @ ''.fromJson(String source) =>'' @ NL @ ''      '' @ dtoClassName
          @ ''.fromMap(json.decode(source));''"
      unfolding 2 by (simp add: generateFactoryMethods_v2_def)
    show "generateFactoryMethods_v3 dtoClassName fs
        = NL @ ''  factory '' @ dtoClassName @ ''.fromMap(Map<String, dynamic> map) => ''
          @ dtoClassName @ ''('' @ NL @ ''    ''
          @ join (NL @ ''    '') ((map fromMap_entry fs)
              [i := name (fs ! i) @ '': '' @ pre @ ''map['' @ APOS @ snakeName (fs ! i) @ APOS @ '']''
                    @ post @ '',''])
          @ NL @ ''  );'' @ NL @ NL @ ''  factory '' @ dtoClassName
          @ ''.fromJson(String source) =>'' @ NL @ ''      '' @ dtoClassName
          @ ''.fromMap(json.decode(source));'' @ NL @ ''  ''"
      unfolding 1 by (simp add: generateFactoryMethods_v3_def)
  }
  {
    assume a: "toJson (customParsing (fs ! i)) = Some e'" "find_sub ''value'' e' = Some (pre', post')"
    from a(2) show "e' = pre' @ ''value'' @ post'"
      by (rule find_sub_Some)
    from a(2) show "\<forall>k < length pre'. \<not> prefix ''value'' (drop k e')"
      using find_sub_first by blast
    note en = first_value_in_entry(2) [OF mem a]
    from en have 3: "(map toMap_entry fs)
        [i := APOS @ snakeName (fs ! i) @ APOS @ '': '' @ pre' @ name (fs ! i) @ post' @ '','']
        = map toMap_entry fs"
      using i by (intro map_update_same) simp_all
    show "generateToMapAndJson_v1 fs
        = ''Map<String, dynamic> toMap() => {'' @ NL @ ''    ''
          @ join (NL @ ''    '') ((map toMap_entry fs)
              [i := APOS @ snakeName (fs ! i) @ APOS @ '': '' @ pre' @ name (fs ! i) @ post' @ '',''])
          @ NL @ ''  };'' @ NL @ NL @ ''  String toJson() => json.encode(toMap());''"
      unfolding 3 by (simp add: generateToMapAndJson_v1_def)
    show "generateToMapAndJson_v2 fs
        = ''Map<String, dynamic> toMap() => {'' @ NL @ ''    ''
          @ join (NL @ ''    '') ((map toMap_entry fs)
              [i := APOS @ snakeName (fs ! i) @ APOS @ '': '' @ pre' @ name (fs ! i) @ post' @ '',''])
          @ NL @ ''  };'' @ NL @ NL @ ''  String toJson() => json.encode(toMap());''"
      unfolding 3 by (simp add: generateToMapAndJson_v2_def)
    show "generateToMapAndJson_v3 fs
        = NL @ ''  Map<String, dynamic> toMap() => {'' @ NL @ ''    ''
          @ join (NL @ ''    '') ((map toMap_entry fs)
              [i := APOS @ snakeName (fs ! i) @ APOS @ '': '' @ pre' @ name (fs ! i) @ post' @ '',''])
          @ NL @ ''  };'' @ NL @ NL @ ''  String toJson() => json.encode(toMap());'' @ NL @ ''  ''"
      unfolding 3 by (simp add: generateToMapAndJson_v3_def)
  }
qed

theorem only_first_value_replaced_witness:
  "fields_of Original sample_repeated_value = fields_of Original sample_repeated_value
   \<and> (0::nat) < length (fields_of Original sample_repeated_value)
   \<and> fromJson (customParsing (fields_of Original sample_repeated_value ! 0)) = Some ''Pair.of(value, value)''
   \<and> find_sub ''value'' ''Pair.of(value, value)'' = Some (''Pair.of('', '', value)'')
   \<and> toJson (customParsing (fields_of Original sample_repeated_value ! 0)) = Some ''value.a + value.b''
   \<and> find_sub ''value'' ''value.a + value.b'' = Some ([], ''.a + value.b'')
   \<and> generateFactoryMethods_v1 ''ADTO'' (fields_of Original sample_repeated_value)
       = ''factory ADTO.fromMap(Map<String, dynamic> map) => ADTO('' @ NL
         @ ''    p: Pair.of(map['p'], value),'' @ NL
         @ ''      );'' @ NL @ NL
         @ ''  factory ADTO.fromJson(String source) =>'' @ NL
         @ ''      ADTO.fromMap(json.decode(source));'' @ NL @ ''  ''
   \<and> generateToMapAndJson_v1 (fields_of Original sample_repeated_value)
       = ''Map<String, dynamic> toMap() => {'' @ NL
         @ ''    '' @ APOS @ ''p'' @ APOS @ '': p.a + value.b,'' @ NL
         @ ''  };'' @ NL @ NL
         @ ''  String toJson() => json.encode(toMap());''"
proof -
  have a: "(0::nat) < length (fields_of Original sample_repeated_value)"
    "fromJson (customParsing (fields_of Original sample_repeated_value ! 0)) = Some ''Pair.of(value, value)''"
    "find_sub ''value'' ''Pair.of(value, value)'' = Some (''Pair.of('', '', value)'')"
    "toJson (customParsing (fields_of Original sample_repeated_value ! 0)) = Some ''value.a + value.b''"
    "find_sub ''value'' ''value.a + value.b'' = Some ([], ''.a + value.b'')"
    by code_simp+
  note t = only_first_value_replaced [of "fields_of Original sample_repeated_value" Original
      sample_repeated_value "[]" 0 "''Pair.of(value, value)''" "''Pair.of(''" "'', value)''"
      "''ADTO''" "''value.a + value.b''" "[]" "''.a + value.b''"]
  from a t have g: "generateFactoryMethods_v1 ''ADTO'' (fields_of Original sample_repeated_value)
        = ''factory '' @ ''ADTO'' @ ''.fromMap(Map<String, dynamic> map) => ''
          @ ''ADTO'' @ ''('' @ NL @ ''    ''
          @ join (NL @ ''    '') ((map fromMap_entry (fields_of Original sample_repeated_value))
              [0 := name (fields_of Original sample_repeated_value ! 0) @ '': '' @ ''Pair.of('' @ ''map['' @ APOS
                    @ snakeName (fields_of Original sample_repeated_value ! 0) @ APOS @ '']''
                    @ '', value)'' @ '',''])
          @ NL @ ''      );'' @ NL @ NL @ ''  factory '' @ ''ADTO''
          @ ''.fromJson(String source) =>'' @ NL @ ''      '' @ ''ADTO''
          @ ''.fromMap(json.decode(source));'' @ NL @ ''  ''"
    and h: "generateToMapAndJson_v1 (fields_of Original sample_repeated_value)
        = ''Map<String, dynamic> toMap() => {'' @ NL @ ''    ''
          @ join (NL @ ''    '') ((map toMap_entry (fields_of Original sample_repeated_value))
              [0 := APOS @ snakeName (fields_of Original sample_repeated_value ! 0) @ APOS @ '': '' @ []
                    @ name (fields_of Original sample_repeated_value ! 0) @ ''.a + value.b'' @ '',''])
          @ NL @ ''  };'' @ NL @ NL @ ''  String toJson() => json.encode(toMap());''"
    by blast+
  have "generateFactoryMethods_v1 ''ADTO'' (fields_of Original sample_repeated_value)
       = ''factory ADTO.fromMap(Map<String, dynamic> map) => ADTO('' @ NL
         @ ''    p: Pair.of(map['p'], value),'' @ NL
         @ ''      );'' @ NL @ NL
         @ ''  factory ADTO.fromJson(String source) =>'' @ NL
         @ ''      ADTO.fromMap(json.decode(source));'' @ NL @ ''  ''"
    by (subst g) code_simp
  moreover have "generateToMapAndJson_v1 (fields_of Original sample_repeated_value)
       = ''Map<String, dynamic> toMap() => {'' @ NL
         @ ''    '' @ APOS @ ''p'' @ APOS @ '': p.a + value.b,'' @ NL
         @ ''  };'' @ NL @ NL
         @ ''  String toJson() => json.encode(toMap());''"
    by (subst h) code_simp
  ultimately show ?thesis
    using a by blast
qed

text \<open>
  Claim C3, as stated: for a class that holds \<^verbatim>\<open>final Count count; // Type: enum\<close>,
  processed with the style \<^verbatim>\<open>original\<close>, the entry of \<^verbatim>\<open>fromMap\<close> is
  \<^verbatim>\<open>countFromString(map['count'])\<close>. It fails in the line-scanning revision, which reads
  the comment lines above a field and not the comment that trails it: the field of the
  class below is taken for a nested class.
\<close>

theorem trailing_enum_comment_not_read:
  "map (\<lambda>m. generateFactoryMethods_v2 ''UserDTO'' (fields_of_lines Original (m_classBody m)))
     (classMatches 0 sample_enum_trailing)
     = [''factory UserDTO.fromMap(Map<String, dynamic> map) => UserDTO('' @ NL
        @ ''    count: map['count'] != null ? Count.fromMap(map['count']) : null,'' @ NL
        @ ''  );'' @ NL @ NL
        @ ''  factory UserDTO.fromJson(String source) =>'' @ NL
        @ ''      UserDTO.fromMap(json.decode(source));'']"
  by code_simp

text \<open>
  Claim C3, amended. With the style \<^verbatim>\<open>original\<close>:

  First and third revision. Let the text hold the declaration
  \<^verbatim>\<open>final Count count; // Type: enum\<close>, and let \<^verbatim>\<open>count;\<close> not stand anywhere before the
  one of this declaration. Then the emitted \<^verbatim>\<open>fromMap\<close> factory holds the entry
  \<^verbatim>\<open>count: countFromString(map['count']),\<close> and the emitted \<^verbatim>\<open>toMap\<close> holds the entry
  \<^verbatim>\<open>'count': countToString(count),\<close>.

  Second revision. Let the class body hold a line that is \<^verbatim>\<open>// Type: enum\<close> (white space
  around it apart), directly followed by a line that starts with \<^verbatim>\<open>final Count count;\<close>,
  and let no comment line of the run of comment lines directly above the directive hold
  \<^verbatim>\<open>Parsing:\<close>. Then the emitted texts hold the same two entries.
\<close>

theorem enum_directive_expressions:
  "(classCode = pre @ ''final Count count; // Type: enum'' @ post
    \<and> (\<forall>k < length pre + 12. \<not> prefix ''count;'' (drop k classCode)) \<longrightarrow>
      (\<exists>P Q. generateFactoryMethods_v1 dtoClassName (fields_of Original classCode)
                = P @ ''count: countFromString(map['count']),'' @ Q)
      \<and> (\<exists>P Q. generateToMapAndJson_v1 (fields_of Original classCode)
                = P @ APOS @ ''count'' @ APOS @ '': countToString(count),'' @ Q)
      \<and> (\<exists>P Q. generateFactoryMethods_v3 dtoClassName (fields_of Original classCode)
                = P @ ''count: countFromString(map['count']),'' @ Q)
      \<and> (\<exists>P Q. generateToMapAndJson_v3 (fields_of Original classCode)
                = P @ APOS @ ''count'' @ APOS @ '': countToString(count),'' @ Q))
   \<and> (split_lines classBody = ls1 @ c # d # ls2
      \<and> (\<forall>l \<in> set (takeWhile (\<lambda>l. startsWith (trim l) ''//'') (rev ls1)).
            \<not> includes_str l ''Parsing:'')
      \<and> trim c = ''// Type: enum'' \<and> trim d = ''final Count count;'' @ rest \<longrightarrow>
      (\<exists>P Q. generateFactoryMethods_v2 dtoClassName (fields_of_lines Original classBody)
                = P @ ''count: countFromString(map['count']),'' @ Q)
      \<and> (\<exists>P Q. generateToMapAndJson_v2 (fields_of_lines Original classBody)
                = P @ APOS @ ''count'' @ APOS @ '': countToString(count),'' @ Q))"
proof (intro conjI impI; elim conjE)
  define f where "f = \<lparr>type = ''Count'', name = ''count'', snakeName = ''count'', nullable = False,
           isEnum = True, isClass = False, customParsing = no_parsing\<rparr>"
  have en: "fromMap_entry f = ''count: countFromString(map['count']),''"
    "fromMap_entry_v2 f = ''count: countFromString(map['count']),''"
    "toMap_entry f = APOS @ ''count'' @ APOS @ '': countToString(count),''"
    by (simp_all add: f_def fromMap_entry_def fromMap_entry_v2_def toMap_entry_def no_parsing_def
        map_access_def)
  {
    assume "classCode = pre @ ''final Count count; // Type: enum'' @ post"
      "\<forall>k < length pre + 12. \<not> prefix ''count;'' (drop k classCode)"
    then have "f \<in> set (fields_of Original classCode)"
      unfolding f_def by (rule trailing_enum_field)
    then have d: "''count: countFromString(map['count']),'' \<in> set (map fromMap_entry (fields_of Original classCode))"
      and u: "APOS @ ''count'' @ APOS @ '': countToString(count),'' \<in> set (map toMap_entry (fields_of Original classCode))"
      using en by (metis image_eqI list.set_map)+
    show "\<exists>P Q. generateFactoryMethods_v1 dtoClassName (fields_of Original classCode)
                = P @ ''count: countFromString(map['count']),'' @ Q"
      unfolding generateFactoryMethods_v1_def
      using join_contains_between [OF d] by (metis append_assoc)
    show "\<exists>P Q. generateFactoryMethods_v3 dtoClassName (fields_of Original classCode)
                = P @ ''count: countFromString(map['count']),'' @ Q"
      unfolding generateFactoryMethods_v3_def
      using join_contains_between [OF d] by (metis append_assoc)
    show "\<exists>P Q. generateToMapAndJson_v1 (fields_of Original classCode)
                = P @ APOS @ ''count'' @ APOS @ '': countToString(count),'' @ Q"
      unfolding generateToMapAndJson_v1_def
      using join_contains_between [OF u] by (metis append_assoc)
    show "\<exists>P Q. generateToMapAndJson_v3 (fields_of Original classCode)
                = P @ APOS @ ''count'' @ APOS @ '': countToString(count),'' @ Q"
      unfolding generateToMapAndJson_v3_def
      using join_contains_between [OF u] by (metis append_assoc)
  }
  {
    assume ls: "split_lines classBody = ls1 @ c # d # ls2"
      and top: "\<forall>l \<in> set (takeWhile (\<lambda>l. startsWith (trim l) ''//'') (rev ls1)).
            \<not> includes_str l ''Parsing:''"
      and c: "trim c = ''// Type: enum''" and d: "trim d = ''final Count count;'' @ rest"
    have "final_field_at (''final '' @ ''Count'' @ [] @ '' '' @ ''count'' @ '';'' @ rest) = Some (''Count'' @ [], ''count'')"
      by (rule final_field_at_typed) (simp_all add: declaration_chars)
    with d have "final_field_at (trim d) = Some (''Count'', ''count'')"
      by simp
    moreover have "\<not> endsWith ''Count'' ''?''"
      by code_simp
    ultimately have "f \<in> set (fields_of_lines Original classBody)"
      using enum_line_above_only [OF ls top c, of "''Count''" "''count''" Original]
      by (simp add: f_def)
    then have dd: "''count: countFromString(map['count']),'' \<in> set (map fromMap_entry_v2 (fields_of_lines Original classBody))"
      and u: "APOS @ ''count'' @ APOS @ '': countToString(count),'' \<in> set (map toMap_entry (fields_of_lines Original classBody))"
      using en by (metis image_eqI list.set_map)+
    show "\<exists>P Q. generateFactoryMethods_v2 dtoClassName (fields_of_lines Original classBody)
                = P @ ''count: countFromString(map['count']),'' @ Q"
      unfolding generateFactoryMethods_v2_def
      using join_contains_between [OF dd] by (metis append_assoc)
    show "\<exists>P Q. generateToMapAndJson_v2 (fields_of_lines Original classBody)
                = P @ APOS @ ''count'' @ APOS @ '': countToString(count),'' @ Q"
      unfolding generateToMapAndJson_v2_def
      using join_contains_between [OF u] by (metis append_assoc)
  }
qed

theorem enum_directive_expressions_witness:
  "sample_enum_trailing = (''class User {'' @ NL @ ''  '') @ ''final Count count; // Type: enum'' @ (NL @ ''}'')
   \<and> generateFactoryMethods_v1 ''UserDTO'' (fields_of Original sample_enum_trailing)
       = (''factory UserDTO.fromMap(Map<String, dynamic> map) => UserDTO('' @ NL @ ''    '')
         @ ''count: countFromString(map['count']),''
         @ (NL @ ''      );'' @ NL @ NL @ ''  factory UserDTO.fromJson(String source) =>'' @ NL
            @ ''      UserDTO.fromMap(json.decode(source));'' @ NL @ ''  '')
   \<and> (\<exists>P Q. generateToMapAndJson_v1 (fields_of Original sample_enum_trailing)
                = P @ APOS @ ''count'' @ APOS @ '': countToString(count),'' @ Q)
   \<and> map m_classBody (classMatches 0 sample_enum_above) = [sample_enum_above_body]
   \<and> split_lines sample_enum_above_body = [[]] @ ''  // Type: enum'' # ''  final Count count;'' # [[]]
   \<and> trim ''  // Type: enum'' = ''// Type: enum''
   \<and> trim ''  final Count count;'' = ''final Count count;'' @ []
   \<and> generateFactoryMethods_v2 ''UserDTO'' (fields_of_lines Original sample_enum_above_body)
       = (''factory UserDTO.fromMap(Map<String, dynamic> map) => UserDTO('' @ NL @ ''    '')
         @ ''count: countFromString(map['count']),''
         @ (NL @ ''  );'' @ NL @ NL @ ''  factory UserDTO.fromJson(String source) =>'' @ NL
            @ ''      UserDTO.fromMap(json.decode(source));'')
   \<and> (\<exists>P Q. generateToMapAndJson_v2 (fields_of_lines Original sample_enum_above_body)
                = P @ APOS @ ''count'' @ APOS @ '': countToString(count),'' @ Q)"
proof -
  have a: "sample_enum_trailing = (''class User {'' @ NL @ ''  '') @ ''final Count count; // Type: enum'' @ (NL @ ''}'')"
    "\<forall>k < length (''class User {'' @ NL @ ''  '') + 12. \<not> prefix ''count;'' (drop k sample_enum_trailing)"
    by code_simp+
  have b: "map m_classBody (classMatches 0 sample_enum_above) = [sample_enum_above_body]"
    "split_lines sample_enum_above_body = [[]] @ ''  // Type: enum'' # ''  final Count count;'' # [[]]"
    "\<forall>l \<in> set (takeWhile (\<lambda>l. startsWith (trim l) ''//'') (rev [[]])).
         \<not> includes_str l ''Parsing:''"
    "trim ''  // Type: enum'' = ''// Type: enum''"
    "trim ''  final Count count;'' = ''final Count count;'' @ []"
    by code_simp+
  have v: "generateFactoryMethods_v1 ''UserDTO'' (fields_of Original sample_enum_trailing)
       = (''factory UserDTO.fromMap(Map<String, dynamic> map) => UserDTO('' @ NL @ ''    '')
         @ ''count: countFromString(map['count']),''
         @ (NL @ ''      );'' @ NL @ NL @ ''  factory UserDTO.fromJson(String source) =>'' @ NL
            @ ''      UserDTO.fromMap(json.decode(source));'' @ NL @ ''  '')"
    "generateFactoryMethods_v2 ''UserDTO'' (fields_of_lines Original sample_enum_above_body)
       = (''factory UserDTO.fromMap(Map<String, dynamic> map) => UserDTO('' @ NL @ ''    '')
         @ ''count: countFromString(map['count']),''
         @ (NL @ ''  );'' @ NL @ NL @ ''  factory UserDTO.fromJson(String source) =>'' @ NL
            @ ''      UserDTO.fromMap(json.decode(source));'')"
    by code_simp+
  have 1: "\<exists>P Q. generateToMapAndJson_v1 (fields_of Original sample_enum_trailing)
                = P @ APOS @ ''count'' @ APOS @ '': countToString(count),'' @ Q"
    using a
      enum_directive_expressions [of sample_enum_trailing "''class User {'' @ NL @ ''  ''" "NL @ ''}''"
        "''UserDTO''" "[]" "[]" "[]" "[]" "[]" "[]"]
    by blast
  have 2: "\<exists>P Q. generateToMapAndJson_v2 (fields_of_lines Original sample_enum_above_body)
                = P @ APOS @ ''count'' @ APOS @ '': countToString(count),'' @ Q"
    using b
      enum_directive_expressions [of "[]" "[]" "[]" "''UserDTO''" sample_enum_above_body "[[]]"
        "''  // Type: enum''" "''  final Count count;''" "[[]]" "[]"]
    by blast
  show ?thesis
    using a b v 1 2 by blast
qed

section \<open>Properties of the Orchestrator\<close>

lemma class_loop_v2_split:
  "applied (class_loop_v2 style sfx ms) =
     map (\<lambda>m. edit_of_match m (updatedClass_v2 (m_className m @ sfx) (fields_of_lines style (m_classBody m))))
       (filter (\<lambda>m. fields_of_lines style (m_classBody m) \<noteq> []) ms)
   \<and> shown (class_loop_v2 style sfx ms) =
     map (\<lambda>m. no_fields_message (m_className m))
       (filter (\<lambda>m. fields_of_lines style (m_classBody m) = []) ms)"
  by (induction ms) (simp_all add: Let_def)

text \<open>
  Claim C4, as stated: when either prompt (the suffix entry or the naming style selection)
  is dismissed, the run ends at once and no edit is applied. It fails for the suffix
  prompt: with the suffix prompt dismissed and a naming style chosen, the run on the
  document \<^verbatim>\<open>class A { int x; }\<close> shows no error and replaces the whole document.
\<close>

theorem dismissed_suffix_prompt_goes_on:
  "shown (dataClass_v1 (Some sample_one_class) None (Some Original)) = []
   \<and> map (\<lambda>e. (range_start e, range_end e))
         (applied (dataClass_v1 (Some sample_one_class) None (Some Original))) = [(0, 18)]"
  by code_simp

text \<open>
  Claim C4, amended: when the naming style selection is dismissed, the run ends with the
  message \<^verbatim>\<open>No naming style selected.\<close>, whatever the document and the suffix answer are,
  and no edit is applied. A dismissed suffix prompt does not end the run: it is the same
  run as with the empty suffix. This holds in all four revisions.
\<close>

theorem dismissed_prompts:
  "dataClass_v1 (Some ed) answer None = showErrorMessage ''No naming style selected.''
   \<and> dataClass_v2 (Some ed) answer None = showErrorMessage ''No naming style selected.''
   \<and> dataClass_v3 (Some ed) answer None = showErrorMessage ''No naming style selected.''
   \<and> dataClass_v4 (Some ed) answer None = showErrorMessage ''No naming style selected.''
   \<and> applied (showErrorMessage ''No naming style selected.'') = []
   \<and> dataClass_v1 (Some ed) None style = dataClass_v1 (Some ed) (Some []) style
   \<and> dataClass_v2 (Some ed) None style = dataClass_v2 (Some ed) (Some []) style
   \<and> dataClass_v3 (Some ed) None style = dataClass_v3 (Some ed) (Some []) style
   \<and> dataClass_v4 (Some ed) None style = dataClass_v4 (Some ed) (Some []) style"
  by (simp add: dataClass_v1_def dataClass_v2_def dataClass_v3_def dataClass_v4_def Let_def
      showErrorMessage_def suffix_of_def trim_def)

text \<open>
  Claim C5. When no class declaration is found in the text (no match of the class name
  pattern in the one-class revisions, no match of the class pattern in the multi-class
  revisions), the run ends with an error message, makes no edit, and the document after
  the run is the document before it.
\<close>

theorem no_class_no_edit:
  "(classNameMatch (classCode_of ed) = None \<longrightarrow>
      dataClass_v1 (Some ed) answer (Some style) = showErrorMessage ''No valid Dart class found.''
    \<and> dataClass_v4 (Some ed) answer (Some style) = showErrorMessage ''No valid Dart class found.'')
   \<and> (classMatches 0 (classCode_of ed) = [] \<longrightarrow>
      dataClass_v2 (Some ed) answer (Some style) = showErrorMessage ''No Dart class found to update.''
    \<and> dataClass_v3 (Some ed) answer (Some style) = showErrorMessage ''No Dart class found to update.'')
   \<and> applied (showErrorMessage msg) = []
   \<and> shown (showErrorMessage msg) = [msg]
   \<and> document_after (document ed) (showErrorMessage msg) = document ed"
  by (simp add: dataClass_v1_def dataClass_v2_def dataClass_v3_def dataClass_v4_def Let_def
      showErrorMessage_def finish_loop_def document_after_def apply_edits_def)

theorem no_class_no_edit_witness:
  "classNameMatch (classCode_of sample_no_class) = None
   \<and> classMatches 0 (classCode_of sample_no_class) = []
   \<and> dataClass_v1 (Some sample_no_class) (Some ''DTO'') (Some SnakeCase)
       = showErrorMessage ''No valid Dart class found.''
   \<and> dataClass_v3 (Some sample_no_class) (Some ''DTO'') (Some SnakeCase)
       = showErrorMessage ''No Dart class found to update.''
   \<and> applied (showErrorMessage ''No valid Dart class found.'') = []
   \<and> document_after (document sample_no_class) (showErrorMessage ''No valid Dart class found.'')
       = document sample_no_class"
proof -
  have h1: "classNameMatch (classCode_of sample_no_class) = None"
    by code_simp
  have h2: "classMatches 0 (classCode_of sample_no_class) = []"
    by code_simp
  show ?thesis
    using h1 h2
      no_class_no_edit [of sample_no_class "Some ''DTO''" SnakeCase "''No valid Dart class found.''"]
    by blast
qed

text \<open>
  The loop of the multi-class revisions keeps the classes apart: a class without fields
  shows its message and the loop goes on, a class with fields adds one edit whose new text
  is generated from that class alone. The range of the edit is the place of the match in
  the text that was scanned; when the whole document was scanned this is the place of the
  class in the document.
\<close>

lemma two_classes_whole_text:
  assumes "classMatches 0 (classCode_of ed) = [a, b] \<or> classMatches 0 (classCode_of ed) = [b, a]"
    and "fields_of_lines style (m_classBody a) \<noteq> []"
    and "fields_of_lines style (m_classBody b) = []"
  shows "dataClass_v2 (Some ed) answer (Some style) =
       \<lparr>shown = [''No valid fields found in class '' @ m_className b @ ''.''],
        applied = [\<lparr>range_start = m_index a, range_end = m_index a + length (m_text a),
                    newText = trim (updatedClass_v2 (m_className a @ suffix_of answer)
                                      (fields_of_lines style (m_classBody a)))\<rparr>]\<rparr>"
  using assms
  by (auto simp: dataClass_v2_def Let_def finish_loop_def no_fields_message_def edit_of_match_def)

lemma whole_document_edit_in_place:
  "classCode_of sample_two_classes = document sample_two_classes
   \<and> shown (dataClass_v2 (Some sample_two_classes) (Some ''DTO'') (Some Original))
       = [''No valid fields found in class B.'']
   \<and> map (\<lambda>e. (range_start e, range_end e))
         (applied (dataClass_v2 (Some sample_two_classes) (Some ''DTO'') (Some Original)))
       = [(0, 26)]
   \<and> take 26 (document sample_two_classes) = ''class A {'' @ NL @ ''  final int x;'' @ NL @ ''}''"
  by code_simp

text \<open>
  Claim C6. In the multi-class revision, when the text holds two located classes, one
  with at least one recognised field (A) and one with none (B), the run is to show one
  message, for B, and to make one edit, for A. The run does show the message for B and
  does make one edit, generated from A; but the edit is not for A when a selection was
  scanned. The place of the match is counted from the start of the selection and is
  handed to \<^verbatim>\<open>positionAt\<close> of the document, which counts from the start of the document.

  In the document below a comment line stands above the two classes, and the selection
  holds the two classes. Class A stands at the offsets 10 to 36 of the document; the one
  edit of the run has the range 0 to 26, which is the comment line and the head of A. The
  same holds in the third revision.
\<close>

theorem selected_classes_edit_misplaced:
  "classCode_of sample_selected_classes
     = ''class A {'' @ NL @ ''  final int x;'' @ NL @ ''}'' @ NL @ ''class B {'' @ NL @ ''}''
   \<and> map (\<lambda>m. (m_className m, m_index m, length (m_text m)))
         (classMatches 0 (classCode_of sample_selected_classes)) = [(''A'', 0, 26), (''B'', 27, 11)]
   \<and> shown (dataClass_v2 (Some sample_selected_classes) (Some ''DTO'') (Some Original))
       = [''No valid fields found in class B.'']
   \<and> map (\<lambda>e. (range_start e, range_end e))
         (applied (dataClass_v2 (Some sample_selected_classes) (Some ''DTO'') (Some Original)))
       = [(0, 26)]
   \<and> map (\<lambda>e. (range_start e, range_end e))
         (applied (dataClass_v3 (Some sample_selected_classes) (Some ''DTO'') (Some Original)))
       = [(0, 26)]
   \<and> take 26 (drop 10 (document sample_selected_classes))
       = ''class A {'' @ NL @ ''  final int x;'' @ NL @ ''}''
   \<and> take 26 (document sample_selected_classes)
       = ''// header'' @ NL @ ''class A {'' @ NL @ ''  fina''"
  by code_simp

end
